theory Spec2Isabelle
  imports Main "HOL-Library.Word" "HOL-Library.Code_Target_Nat"
begin

unbundle bit_operations_syntax

section \<open>AXI4-Lite RAM model: data\<close>

text \<open>
  The model follows \<^verbatim>\<open>cocotbext/axi/axil_ram.py\<close>: the classes
  \<^verbatim>\<open>AxiLiteRamWrite\<close>, \<^verbatim>\<open>AxiLiteRamRead\<close> and \<^verbatim>\<open>AxiLiteRam\<close>.
  Python's unbounded non-negative integers (addresses, data words, strobe masks) are
  \<^typ>\<open>nat\<close>; a byte of the store is an \<^typ>\<open>8 word\<close>; every exception the code
  can raise is a value of \<open>error\<close>.
\<close>

datatype error = AssertionError | AttributeError | ZeroDivisionError | OverflowError

text \<open>
  Modelled from the spec: \<^verbatim>\<open>constants.py\<close> (\<^verbatim>\<open>AxiProt\<close>, \<^verbatim>\<open>AxiResp\<close>) is not part of
  the source at hand. The spec names a fixed "non-secure" protection value and a
  "success" status code, the only status this model produces. The protection value is a
  flag word; its number (bit 1, as in the AXI standard) is used by no theorem below.
\<close>

definition AxiProt_NONSECURE :: nat where
  "AxiProt_NONSECURE = 2"

datatype AxiResp = OKAY | EXOKAY | SLVERR | DECERR

text \<open>
  Beats (transaction objects). An optional wire that the bus omits is an attribute the
  beat does not have: \<open>None\<close>, which is what \<^verbatim>\<open>getattr(beat, name, default)\<close> tests.
\<close>

record aw_beat =
  awaddr :: nat
  awprot :: "nat option"

record w_beat =
  wdata :: nat
  wstrb :: "nat option"

record b_beat =
  bresp :: AxiResp

record ar_beat =
  araddr :: nat
  arprot :: "nat option"

record r_beat =
  rdata :: nat
  rresp :: AxiResp

section \<open>The backing store\<close>

text \<open>
  Modelled from the spec: the store object \<^verbatim>\<open>self.mem\<close> and the base class
  \<^verbatim>\<open>Memory\<close> (\<^verbatim>\<open>memory.py\<close>) are not part of the source at hand. The spec describes the
  store as "a byte sequence of fixed configured size; a read or write at an offset wraps
  modulo the store size (address aliasing, not an error)", and says of a masked byte that
  "the store position still advances (seek) but the byte is left unmodified". The engines
  use it through a cursor: \<^verbatim>\<open>seek(p)\<close>, \<^verbatim>\<open>seek(1, 1)\<close>, \<^verbatim>\<open>write(bytes)\<close>, \<^verbatim>\<open>read(n)\<close>.
  So the store is its bytes and a cursor, and an access at cursor \<open>p\<close> touches offset
  \<open>p mod size\<close>.
\<close>

record store =
  bytes :: "8 word list"
  pos :: nat

definition mem_seek :: "nat \<Rightarrow> store \<Rightarrow> store" where
  "mem_seek p m = m\<lparr>pos := p\<rparr>"

definition mem_seek_cur :: "nat \<Rightarrow> store \<Rightarrow> store" where
  "mem_seek_cur off m = m\<lparr>pos := pos m + off\<rparr>"

definition mem_write_byte :: "8 word \<Rightarrow> store \<Rightarrow> store" where
  "mem_write_byte b m =
     m\<lparr>bytes := (bytes m)[pos m mod length (bytes m) := b], pos := pos m + 1\<rparr>"

definition mem_write :: "8 word list \<Rightarrow> store \<Rightarrow> store" where
  "mem_write bs m = fold mem_write_byte bs m"

definition mem_read :: "nat \<Rightarrow> store \<Rightarrow> 8 word list \<times> store" where
  "mem_read n m =
     (map (\<lambda>i. bytes m ! ((pos m + i) mod length (bytes m))) [0..<n],
      m\<lparr>pos := pos m + n\<rparr>)"

text \<open>
  Modelled from the spec: \<^verbatim>\<open>Memory.__init__(size, mem)\<close> keeps the store it is given, or
  allocates one of \<open>size\<close> bytes, and records the store's length as \<^verbatim>\<open>self.size\<close>
  ("fixed total size in bytes").
\<close>

definition Memory_init :: "nat \<Rightarrow> store option \<Rightarrow> store \<times> nat" where
  "Memory_init sz mem =
     (let m = (case mem of None \<Rightarrow> \<lparr>bytes = replicate sz 0, pos = 0\<rparr> | Some m' \<Rightarrow> m')
      in (m, length (bytes m)))"

section \<open>Python integers and bytes\<close>

text \<open>\<^verbatim>\<open>int.to_bytes(n, 'little')\<close>: \<open>n\<close> bytes, lowest first; OverflowError when the
  value does not fit. \<^verbatim>\<open>int.from_bytes(bs, 'little')\<close> is its inverse.\<close>

fun to_bytes_le :: "nat \<Rightarrow> nat \<Rightarrow> 8 word list" where
  "to_bytes_le 0 x = []"
| "to_bytes_le (Suc n) x = of_nat (x mod 256) # to_bytes_le n (x div 256)"

definition int_to_bytes :: "nat \<Rightarrow> nat \<Rightarrow> error + 8 word list" where
  "int_to_bytes x n = (if x < 256 ^ n then Inr (to_bytes_le n x) else Inl OverflowError)"

fun int_from_bytes :: "8 word list \<Rightarrow> nat" where
  "int_from_bytes [] = 0"
| "int_from_bytes (b # bs) = unat b + 256 * int_from_bytes bs"

section \<open>One write transaction and one read transaction\<close>

text \<open>Line 103 and line 195: \<^verbatim>\<open>addr = (int(a.addr) // self.byte_lanes) * self.byte_lanes\<close>.\<close>

definition align_addr :: "nat \<Rightarrow> nat \<Rightarrow> error + nat" where
  "align_addr byte_lanes a =
     (if byte_lanes = 0 then Inl ZeroDivisionError else Inr ((a div byte_lanes) * byte_lanes))"

text \<open>Line 104 and line 196: \<^verbatim>\<open>AxiProt(getattr(a, 'awprot', AxiProt.NONSECURE))\<close>.\<close>

definition get_prot :: "nat option \<Rightarrow> nat" where
  "get_prot p = (case p of None \<Rightarrow> AxiProt_NONSECURE | Some v \<Rightarrow> v)"

text \<open>Line 109: \<^verbatim>\<open>strb = int(getattr(w, 'wstrb', self.strb_mask))\<close>.\<close>

definition get_strb :: "nat \<Rightarrow> w_beat \<Rightarrow> nat" where
  "get_strb dflt w = (case wstrb w of None \<Rightarrow> dflt | Some v \<Rightarrow> v)"

text \<open>Lines 121 to 125: one pass of the loop over the byte lanes, and the loop.\<close>

definition write_lane :: "nat \<Rightarrow> 8 word list \<Rightarrow> nat \<Rightarrow> store \<Rightarrow> store" where
  "write_lane strb data i m =
     (if strb AND push_bit i 1 \<noteq> 0 then mem_write (take 1 (drop i data)) m
      else mem_seek_cur 1 m)"

definition write_lanes :: "nat \<Rightarrow> nat \<Rightarrow> 8 word list \<Rightarrow> store \<Rightarrow> store" where
  "write_lanes byte_lanes strb data m = fold (write_lane strb data) [0..<byte_lanes] m"

text \<open>
  Lines 113 to 125: the store access of a write, given the aligned address. The first
  component is the exception raised, if any; the store comes back as the code left it.
\<close>

definition write_access ::
  "nat \<Rightarrow> nat \<Rightarrow> nat \<Rightarrow> nat \<Rightarrow> nat \<Rightarrow> store \<Rightarrow> error option \<times> store" where
  "write_access sz byte_lanes addr data strb m =
     (if sz = 0 then (Some ZeroDivisionError, m)
      else let m1 = mem_seek (addr mod sz) m in
        (case int_to_bytes data byte_lanes of
           Inl e \<Rightarrow> (Some e, m1)
         | Inr bs \<Rightarrow> (None, write_lanes byte_lanes strb bs m1)))"

text \<open>Lines 200 to 206: the store access of a read and the beat it builds.\<close>

definition read_access :: "nat \<Rightarrow> nat \<Rightarrow> nat \<Rightarrow> store \<Rightarrow> error + (r_beat \<times> store)" where
  "read_access sz byte_lanes addr m =
     (if sz = 0 then Inl ZeroDivisionError
      else let (data, m1) = mem_read byte_lanes (mem_seek (addr mod sz) m)
           in Inr (\<lparr>rdata = int_from_bytes data, rresp = OKAY\<rparr>, m1))"

section \<open>The write engine\<close>

text \<open>
  The coroutine \<^verbatim>\<open>_process_write\<close> suspends at its three \<^verbatim>\<open>await\<close>s: the receive of an
  address beat (line 101), the receive of a data beat (line 106, holding \<^verbatim>\<open>addr\<close> and
  \<^verbatim>\<open>prot\<close>) and the send of the response (line 130).
\<close>

datatype write_pc = AwaitAW | AwaitW nat nat | AwaitB

datatype ('p, 's) outcome = Blocked | Next 'p 's | Raised error 's

text \<open>
  The attributes of \<^verbatim>\<open>AxiLiteRamWrite\<close> that the code reads or writes. A channel
  endpoint is its queue of beats. Attributes that both engine classes have (\<^verbatim>\<open>mem\<close>,
  \<^verbatim>\<open>size\<close>, \<^verbatim>\<open>width\<close>, ...) carry the prefix \<open>wr_\<close> here and \<open>rd_\<close> in the read
  engine.
\<close>

text \<open>
  Modelled from the spec: the channel endpoints (\<^verbatim>\<open>axil_channels.py\<close>) and the
  simulator's scheduler (\<^verbatim>\<open>cocotb.fork\<close>, \<^verbatim>\<open>kill\<close>) are not part of the source at hand.
  By the spec, \<^verbatim>\<open>recv\<close> suspends until a beat is queued and returns beats in the order
  they were admitted; \<^verbatim>\<open>send\<close> queues the beat and suspends until the handshake has
  handed it over; \<^verbatim>\<open>clear\<close> discards all queued beats; an engine has at most the
  coroutines it has started and not cancelled. The last three fields are the simulator's
  side: the live \<^verbatim>\<open>_process_write\<close> coroutines with their handles, the next unused
  handle, and the response beats handed over to the master so far.
\<close>

record AxiLiteRamWrite =
  wr_mem :: store
  wr_size :: nat
  aw_channel :: "aw_beat list"
  w_channel :: "w_beat list"
  b_channel :: "b_beat list"
  wr_address_width :: nat
  wr_width :: nat
  wr_byte_size :: nat
  wr_byte_lanes :: nat
  strb_mask :: nat
  process_write_cr :: "nat option"
  wr_tasks :: "(nat \<times> write_pc) list"
  wr_fresh :: nat
  b_wire :: "b_beat list"

text \<open>
  Modelled from the spec: \<^verbatim>\<open>_init_reset\<close> (\<^verbatim>\<open>reset.py\<close>) is not part of the source at
  hand. By the spec the engine is notified once per transition of the reset level; these
  notifications are the reset events below, and \<^verbatim>\<open>__init__\<close> itself leaves the engine
  without a coroutine (line 80).
\<close>

text \<open>
  \<^verbatim>\<open>AxiLiteRamWrite.__init__\<close>, lines 48 to 82, from the widths of the \<^verbatim>\<open>awaddr\<close>,
  \<^verbatim>\<open>wdata\<close> and \<^verbatim>\<open>wstrb\<close> signals (\<^verbatim>\<open>len\<close> of a signal the bus does not have raises
  AttributeError) and the arguments \<^verbatim>\<open>size\<close> and \<^verbatim>\<open>mem\<close>.
\<close>

definition AxiLiteRamWrite_init ::
  "nat \<Rightarrow> nat \<Rightarrow> nat option \<Rightarrow> nat \<Rightarrow> store option \<Rightarrow> error + AxiLiteRamWrite" where
  "AxiLiteRamWrite_init awaddr_len wdata_len wstrb_len sz mem =
     (let (m, size_m) = Memory_init sz mem;
          width = wdata_len;
          byte_size = 8;
          byte_lanes = width div byte_size
      in case wstrb_len of
           None \<Rightarrow> Inl AttributeError
         | Some strb_len \<Rightarrow>
             if byte_lanes \<noteq> strb_len then Inl AssertionError
             else if byte_lanes * byte_size \<noteq> width then Inl AssertionError
             else Inr \<lparr>wr_mem = m, wr_size = size_m,
                       aw_channel = [], w_channel = [], b_channel = [],
                       wr_address_width = awaddr_len, wr_width = width,
                       wr_byte_size = byte_size, wr_byte_lanes = byte_lanes,
                       strb_mask = 2 ^ byte_lanes - 1,
                       process_write_cr = None,
                       wr_tasks = [], wr_fresh = 0, b_wire = []\<rparr>)"

text \<open>\<^verbatim>\<open>AxiLiteRamWrite._handle_reset\<close>, lines 84 to 97.\<close>

definition write_handle_reset :: "bool \<Rightarrow> AxiLiteRamWrite \<Rightarrow> AxiLiteRamWrite" where
  "write_handle_reset state s =
     (if state then
        let s1 = (case process_write_cr s of
                    None \<Rightarrow> s
                  | Some h \<Rightarrow> s\<lparr>wr_tasks := filter (\<lambda>t. fst t \<noteq> h) (wr_tasks s),
                                process_write_cr := None\<rparr>)
        in s1\<lparr>aw_channel := [], w_channel := [], b_channel := []\<rparr>
      else
        (case process_write_cr s of
           None \<Rightarrow> s\<lparr>process_write_cr := Some (wr_fresh s),
                      wr_tasks := wr_tasks s @ [(wr_fresh s, AwaitAW)],
                      wr_fresh := Suc (wr_fresh s)\<rparr>
         | Some h \<Rightarrow> s))"

text \<open>
  \<^verbatim>\<open>AxiLiteRamWrite._process_write\<close>, lines 99 to 130: the code from one \<^verbatim>\<open>await\<close> to the
  next. \<open>Blocked\<close>: the awaited event has not happened; \<open>Raised\<close>: the coroutine
  ends with an exception.
\<close>

definition write_step ::
  "write_pc \<Rightarrow> AxiLiteRamWrite \<Rightarrow> (write_pc, AxiLiteRamWrite) outcome" where
  "write_step pc s =
     (case pc of
        AwaitAW \<Rightarrow>
          (case aw_channel s of
             [] \<Rightarrow> Blocked
           | aw # rest \<Rightarrow>
               let s1 = s\<lparr>aw_channel := rest\<rparr> in
               (case align_addr (wr_byte_lanes s) (awaddr aw) of
                  Inl e \<Rightarrow> Raised e s1
                | Inr addr \<Rightarrow> Next (AwaitW addr (get_prot (awprot aw))) s1))
      | AwaitW addr prot \<Rightarrow>
          (case w_channel s of
             [] \<Rightarrow> Blocked
           | w # rest \<Rightarrow>
               let s1 = s\<lparr>w_channel := rest\<rparr>;
                   data = wdata w;
                   strb = get_strb (strb_mask s) w
               in (case write_access (wr_size s) (wr_byte_lanes s) addr data strb (wr_mem s) of
                     (Some e, m) \<Rightarrow> Raised e (s1\<lparr>wr_mem := m\<rparr>)
                   | (None, m) \<Rightarrow>
                       let b = \<lparr>bresp = OKAY\<rparr>
                       in Next AwaitB (s1\<lparr>wr_mem := m, b_channel := b_channel s @ [b]\<rparr>)))
      | AwaitB \<Rightarrow>
          (case b_channel s of
             [] \<Rightarrow> Next AwaitAW s
           | b # rest \<Rightarrow> Blocked))"

text \<open>The coroutine runs until it suspends on an event that has not happened, or ends.\<close>

function write_run :: "write_pc \<Rightarrow> AxiLiteRamWrite \<Rightarrow> write_pc option \<times> AxiLiteRamWrite" where
  "write_run pc s =
     (case write_step pc s of
        Blocked \<Rightarrow> (Some pc, s)
      | Raised e s' \<Rightarrow> (None, s')
      | Next pc' s' \<Rightarrow> write_run pc' s')"
  by pat_completeness auto
termination
  by (relation "measure (\<lambda>(pc, s). 2 * (length (aw_channel s) + length (w_channel s))
        + (case pc of AwaitB \<Rightarrow> 1 | _ \<Rightarrow> 0))")
     (auto simp: write_step_def Let_def
           split: write_pc.splits list.splits sum.splits option.splits prod.splits)

declare write_run.simps [simp del]

text \<open>The scheduler resumes every live coroutine of the engine; one that ends is
  dropped from the live ones (its handle stays in \<^verbatim>\<open>_process_write_cr\<close>).\<close>

fun write_sched ::
  "(nat \<times> write_pc) list \<Rightarrow> AxiLiteRamWrite \<Rightarrow> (nat \<times> write_pc) list \<times> AxiLiteRamWrite" where
  "write_sched [] s = ([], s)"
| "write_sched ((h, pc) # ts) s =
     (case write_run pc s of
        (None, s') \<Rightarrow> write_sched ts s'
      | (Some pc', s') \<Rightarrow>
          (case write_sched ts s' of (ts', s'') \<Rightarrow> ((h, pc') # ts', s'')))"

text \<open>
  What can happen to the write interface: the reset level changes, the address sink or
  the data sink admits a beat, the scheduler runs, the master takes the response beat at
  the head of the response queue.
\<close>

datatype write_event = WReset bool | WAdmitAW aw_beat | WAdmitW w_beat | WRun | WHandshakeB

fun write_event_step :: "AxiLiteRamWrite \<Rightarrow> write_event \<Rightarrow> AxiLiteRamWrite" where
  "write_event_step s (WReset state) = write_handle_reset state s"
| "write_event_step s (WAdmitAW aw) = s\<lparr>aw_channel := aw_channel s @ [aw]\<rparr>"
| "write_event_step s (WAdmitW w) = s\<lparr>w_channel := w_channel s @ [w]\<rparr>"
| "write_event_step s WRun =
     (case write_sched (wr_tasks s) s of (ts, s') \<Rightarrow> s'\<lparr>wr_tasks := ts\<rparr>)"
| "write_event_step s WHandshakeB =
     (case b_channel s of
        [] \<Rightarrow> s
      | b # rest \<Rightarrow> s\<lparr>b_channel := rest, b_wire := b_wire s @ [b]\<rparr>)"

definition write_exec :: "AxiLiteRamWrite \<Rightarrow> write_event list \<Rightarrow> AxiLiteRamWrite" where
  "write_exec s evs = foldl write_event_step s evs"

section \<open>The read engine\<close>

text \<open>
  The coroutine \<^verbatim>\<open>_process_read\<close> suspends at the receive of an address beat (line 193)
  and at the send of the data beat (line 208).
\<close>

datatype read_pc = AwaitAR | AwaitR

text \<open>
  The attributes of \<^verbatim>\<open>AxiLiteRamRead\<close>, with the channel endpoints and the simulator's
  side modelled as for the write engine.
\<close>

record AxiLiteRamRead =
  rd_mem :: store
  rd_size :: nat
  ar_channel :: "ar_beat list"
  r_channel :: "r_beat list"
  rd_address_width :: nat
  rd_width :: nat
  rd_byte_size :: nat
  rd_byte_lanes :: nat
  process_read_cr :: "nat option"
  rd_tasks :: "(nat \<times> read_pc) list"
  rd_fresh :: nat
  r_wire :: "r_beat list"

text \<open>\<^verbatim>\<open>AxiLiteRamRead.__init__\<close>, lines 145 to 175.\<close>

definition AxiLiteRamRead_init ::
  "nat \<Rightarrow> nat \<Rightarrow> nat \<Rightarrow> store option \<Rightarrow> error + AxiLiteRamRead" where
  "AxiLiteRamRead_init araddr_len rdata_len sz mem =
     (let (m, size_m) = Memory_init sz mem;
          width = rdata_len;
          byte_size = 8;
          byte_lanes = width div byte_size
      in if byte_lanes * byte_size \<noteq> width then Inl AssertionError
         else Inr \<lparr>rd_mem = m, rd_size = size_m,
                   ar_channel = [], r_channel = [],
                   rd_address_width = araddr_len, rd_width = width,
                   rd_byte_size = byte_size, rd_byte_lanes = byte_lanes,
                   process_read_cr = None,
                   rd_tasks = [], rd_fresh = 0, r_wire = []\<rparr>)"

text \<open>\<^verbatim>\<open>AxiLiteRamRead._handle_reset\<close>, lines 177 to 189.\<close>

definition read_handle_reset :: "bool \<Rightarrow> AxiLiteRamRead \<Rightarrow> AxiLiteRamRead" where
  "read_handle_reset state s =
     (if state then
        let s1 = (case process_read_cr s of
                    None \<Rightarrow> s
                  | Some h \<Rightarrow> s\<lparr>rd_tasks := filter (\<lambda>t. fst t \<noteq> h) (rd_tasks s),
                                process_read_cr := None\<rparr>)
        in s1\<lparr>ar_channel := [], r_channel := []\<rparr>
      else
        (case process_read_cr s of
           None \<Rightarrow> s\<lparr>process_read_cr := Some (rd_fresh s),
                      rd_tasks := rd_tasks s @ [(rd_fresh s, AwaitAR)],
                      rd_fresh := Suc (rd_fresh s)\<rparr>
         | Some h \<Rightarrow> s))"

text \<open>\<^verbatim>\<open>AxiLiteRamRead._process_read\<close>, lines 191 to 208, from one \<^verbatim>\<open>await\<close> to the next.\<close>

definition read_step ::
  "read_pc \<Rightarrow> AxiLiteRamRead \<Rightarrow> (read_pc, AxiLiteRamRead) outcome" where
  "read_step pc s =
     (case pc of
        AwaitAR \<Rightarrow>
          (case ar_channel s of
             [] \<Rightarrow> Blocked
           | ar # rest \<Rightarrow>
               let s1 = s\<lparr>ar_channel := rest\<rparr> in
               (case align_addr (rd_byte_lanes s) (araddr ar) of
                  Inl e \<Rightarrow> Raised e s1
                | Inr addr \<Rightarrow>
                    let prot = get_prot (arprot ar) in
                    (case read_access (rd_size s) (rd_byte_lanes s) addr (rd_mem s) of
                       Inl e \<Rightarrow> Raised e s1
                     | Inr (r, m) \<Rightarrow>
                         Next AwaitR (s1\<lparr>rd_mem := m, r_channel := r_channel s @ [r]\<rparr>))))
      | AwaitR \<Rightarrow>
          (case r_channel s of
             [] \<Rightarrow> Next AwaitAR s
           | r # rest \<Rightarrow> Blocked))"

function read_run :: "read_pc \<Rightarrow> AxiLiteRamRead \<Rightarrow> read_pc option \<times> AxiLiteRamRead" where
  "read_run pc s =
     (case read_step pc s of
        Blocked \<Rightarrow> (Some pc, s)
      | Raised e s' \<Rightarrow> (None, s')
      | Next pc' s' \<Rightarrow> read_run pc' s')"
  by pat_completeness auto
termination
  by (relation "measure (\<lambda>(pc, s). 2 * length (ar_channel s)
        + (case pc of AwaitR \<Rightarrow> 1 | _ \<Rightarrow> 0))")
     (auto simp: read_step_def Let_def
           split: read_pc.splits list.splits sum.splits option.splits prod.splits)

declare read_run.simps [simp del]

fun read_sched ::
  "(nat \<times> read_pc) list \<Rightarrow> AxiLiteRamRead \<Rightarrow> (nat \<times> read_pc) list \<times> AxiLiteRamRead" where
  "read_sched [] s = ([], s)"
| "read_sched ((h, pc) # ts) s =
     (case read_run pc s of
        (None, s') \<Rightarrow> read_sched ts s'
      | (Some pc', s') \<Rightarrow>
          (case read_sched ts s' of (ts', s'') \<Rightarrow> ((h, pc') # ts', s'')))"

datatype read_event = RReset bool | RAdmitAR ar_beat | RRun | RHandshakeR

fun read_event_step :: "AxiLiteRamRead \<Rightarrow> read_event \<Rightarrow> AxiLiteRamRead" where
  "read_event_step s (RReset state) = read_handle_reset state s"
| "read_event_step s (RAdmitAR ar) = s\<lparr>ar_channel := ar_channel s @ [ar]\<rparr>"
| "read_event_step s RRun =
     (case read_sched (rd_tasks s) s of (ts, s') \<Rightarrow> s'\<lparr>rd_tasks := ts\<rparr>)"
| "read_event_step s RHandshakeR =
     (case r_channel s of
        [] \<Rightarrow> s
      | r # rest \<Rightarrow> s\<lparr>r_channel := rest, r_wire := r_wire s @ [r]\<rparr>)"

definition read_exec :: "AxiLiteRamRead \<Rightarrow> read_event list \<Rightarrow> AxiLiteRamRead" where
  "read_exec s evs = foldl read_event_step s evs"

section \<open>The composite slave\<close>

text \<open>\<^verbatim>\<open>AxiLiteRam.__init__\<close>, lines 216 to 223: both engines are built over the store
  of the composite.\<close>

record AxiLiteRam =
  ram_mem :: store
  ram_size :: nat
  write_if :: AxiLiteRamWrite
  read_if :: AxiLiteRamRead

definition AxiLiteRam_init ::
  "nat \<Rightarrow> nat \<Rightarrow> nat option \<Rightarrow> nat \<Rightarrow> nat \<Rightarrow> nat \<Rightarrow> store option \<Rightarrow> error + AxiLiteRam" where
  "AxiLiteRam_init awaddr_len wdata_len wstrb_len araddr_len rdata_len sz mem =
     (let (m, size_m) = Memory_init sz mem in
      case AxiLiteRamWrite_init awaddr_len wdata_len wstrb_len 1024 (Some m) of
        Inl e \<Rightarrow> Inl e
      | Inr w \<Rightarrow>
          (case AxiLiteRamRead_init araddr_len rdata_len 1024 (Some m) of
             Inl e \<Rightarrow> Inl e
           | Inr r \<Rightarrow> Inr \<lparr>ram_mem = m, ram_size = size_m, write_if = w, read_if = r\<rparr>))"

section \<open>Notions used in the statements\<close>

text \<open>
  The bytes of the store after the byte lanes of one write, with every offset written
  out: lane \<open>i\<close> of \<open>data\<close> goes to offset \<open>(p + i) mod sz\<close> if bit \<open>i\<close> of the
  strobe is set, and nothing happens for a lane whose bit is clear.
\<close>

definition put_lanes :: "nat \<Rightarrow> nat \<Rightarrow> nat \<Rightarrow> 8 word list \<Rightarrow> nat \<Rightarrow> 8 word list \<Rightarrow> 8 word list" where
  "put_lanes n strb p data sz bs =
     fold (\<lambda>i b. if bit strb i then b[(p + i) mod sz := data ! i] else b) [0..<n] bs"

text \<open>
  The success response; the store after one write transaction, given its aligned address
  and its data beat; the beat that answers a read of the bytes \<open>bs\<close> at an aligned
  address.
\<close>

definition OKAY_beat :: b_beat where
  "OKAY_beat = \<lparr>bresp = OKAY\<rparr>"

definition apply_write :: "nat \<Rightarrow> nat \<Rightarrow> nat \<Rightarrow> store \<Rightarrow> nat \<times> w_beat \<Rightarrow> store" where
  "apply_write sz bl dflt m p =
     snd (write_access sz bl (fst p) (wdata (snd p)) (get_strb dflt (snd p)) m)"

definition read_beat :: "nat \<Rightarrow> nat \<Rightarrow> 8 word list \<Rightarrow> nat \<Rightarrow> r_beat" where
  "read_beat sz bl bs addr =
     \<lparr>rdata = int_from_bytes (map (\<lambda>i. bs ! ((addr + i) mod sz)) [0..<bl]), rresp = OKAY\<rparr>"

text \<open>
  The beats of an event list, in the order of their admission; the aligned addresses of
  its address beats; event lists without a reset; the rounds of handshake and scheduler
  run in which the master takes what the engine has to send.

  An admission event stands for a handshake that took place. The occupancy limit of the
  sinks (\<^verbatim>\<open>queue_occupancy_limit = 2\<close>, lines 51 to 55 and 148 to 150) only restricts
  when a handshake can take place, so the runs under the limit are among the runs the
  statements below quantify over.
\<close>

definition aw_beats :: "write_event list \<Rightarrow> aw_beat list" where
  "aw_beats evs = concat (map (\<lambda>e. case e of WAdmitAW a \<Rightarrow> [a] | _ \<Rightarrow> []) evs)"

definition w_beats :: "write_event list \<Rightarrow> w_beat list" where
  "w_beats evs = concat (map (\<lambda>e. case e of WAdmitW w \<Rightarrow> [w] | _ \<Rightarrow> []) evs)"

definition write_addrs :: "nat \<Rightarrow> write_event list \<Rightarrow> nat list" where
  "write_addrs bl evs = map (\<lambda>aw. awaddr aw div bl * bl) (aw_beats evs)"

definition no_wreset :: "write_event list \<Rightarrow> bool" where
  "no_wreset evs = list_all (\<lambda>e. case e of WReset b \<Rightarrow> False | _ \<Rightarrow> True) evs"

definition write_drain :: "nat \<Rightarrow> write_event list" where
  "write_drain n = concat (replicate n [WHandshakeB, WRun])"

definition ar_beats :: "read_event list \<Rightarrow> ar_beat list" where
  "ar_beats evs = concat (map (\<lambda>e. case e of RAdmitAR a \<Rightarrow> [a] | _ \<Rightarrow> []) evs)"

definition read_addrs :: "nat \<Rightarrow> read_event list \<Rightarrow> nat list" where
  "read_addrs bl evs = map (\<lambda>ar. araddr ar div bl * bl) (ar_beats evs)"

definition no_rreset :: "read_event list \<Rightarrow> bool" where
  "no_rreset evs = list_all (\<lambda>e. case e of RReset b \<Rightarrow> False | _ \<Rightarrow> True) evs"

definition read_drain :: "nat \<Rightarrow> read_event list" where
  "read_drain n = concat (replicate n [RHandshakeR, RRun])"

text \<open>
  An engine as \<^verbatim>\<open>__init__\<close> leaves it and as a reset assertion leaves it: no coroutine,
  no handle, empty queues. The responses an engine has emitted: those the master has
  taken and those still queued.
\<close>

definition write_idle :: "AxiLiteRamWrite \<Rightarrow> bool" where
  "write_idle s \<longleftrightarrow> process_write_cr s = None \<and> wr_tasks s = [] \<and>
     aw_channel s = [] \<and> w_channel s = [] \<and> b_channel s = []"

definition write_responses :: "AxiLiteRamWrite \<Rightarrow> b_beat list" where
  "write_responses s = b_wire s @ b_channel s"

definition read_idle :: "AxiLiteRamRead \<Rightarrow> bool" where
  "read_idle s \<longleftrightarrow> process_read_cr s = None \<and> rd_tasks s = [] \<and>
     ar_channel s = [] \<and> r_channel s = []"

definition read_responses :: "AxiLiteRamRead \<Rightarrow> r_beat list" where
  "read_responses s = r_wire s @ r_channel s"

text \<open>
  The reset handler's invariant: at most one coroutine of the engine is live, and a live
  one is the one the handle refers to.
\<close>

definition write_task_inv :: "AxiLiteRamWrite \<Rightarrow> bool" where
  "write_task_inv s \<longleftrightarrow>
     length (wr_tasks s) \<le> 1 \<and> (\<forall>t \<in> set (wr_tasks s). process_write_cr s = Some (fst t))"

definition read_task_inv :: "AxiLiteRamRead \<Rightarrow> bool" where
  "read_task_inv s \<longleftrightarrow>
     length (rd_tasks s) \<le> 1 \<and> (\<forall>t \<in> set (rd_tasks s). process_read_cr s = Some (fst t))"

text \<open>
  Two engines for the examples: a write engine and a read engine on a 32-bit bus over a
  store of 8 bytes, as their \<^verbatim>\<open>__init__\<close> builds them.
\<close>

definition wr_example :: AxiLiteRamWrite where
  "wr_example =
     \<lparr>wr_mem = \<lparr>bytes = replicate 8 0, pos = 0\<rparr>, wr_size = 8,
      aw_channel = [], w_channel = [], b_channel = [],
      wr_address_width = 32, wr_width = 32, wr_byte_size = 8, wr_byte_lanes = 4,
      strb_mask = 15, process_write_cr = None, wr_tasks = [], wr_fresh = 0, b_wire = []\<rparr>"

definition rd_example :: AxiLiteRamRead where
  "rd_example =
     \<lparr>rd_mem = \<lparr>bytes = [1, 2, 3, 4, 5, 6, 7, 8], pos = 0\<rparr>, rd_size = 8,
      ar_channel = [], r_channel = [],
      rd_address_width = 32, rd_width = 32, rd_byte_size = 8, rd_byte_lanes = 4,
      process_read_cr = None, rd_tasks = [], rd_fresh = 0, r_wire = []\<rparr>"


section \<open>Notions used in the proofs\<close>

text \<open>
  What a write coroutine has accepted but not yet served: the address it holds while it
  waits for the data beat, then the aligned addresses of the queued address beats. For
  the read engine the aligned addresses of the queue.
\<close>

definition pending_addrs :: "write_pc \<Rightarrow> AxiLiteRamWrite \<Rightarrow> nat list" where
  "pending_addrs pc s =
     (case pc of AwaitW addr prot \<Rightarrow> [addr] | _ \<Rightarrow> []) @
     map (\<lambda>aw. awaddr aw div wr_byte_lanes s * wr_byte_lanes s) (aw_channel s)"

definition pending_reads :: "AxiLiteRamRead \<Rightarrow> nat list" where
  "pending_reads s = map (\<lambda>ar. araddr ar div rd_byte_lanes s * rd_byte_lanes s) (ar_channel s)"

text \<open>
  The conditions under which no step raises: a positive byte-lane count and store size,
  and (write side) queued data that fit the data width, (read side) a store as long as
  \<^verbatim>\<open>self.size\<close> says.
\<close>

definition wr_ok :: "AxiLiteRamWrite \<Rightarrow> bool" where
  "wr_ok s \<longleftrightarrow> 0 < wr_byte_lanes s \<and> 0 < wr_size s \<and>
     list_all (\<lambda>w. wdata w < 256 ^ wr_byte_lanes s) (w_channel s)"

definition rd_ok :: "AxiLiteRamRead \<Rightarrow> bool" where
  "rd_ok s \<longleftrightarrow> 0 < rd_byte_lanes s \<and> 0 < rd_size s \<and> length (bytes (rd_mem s)) = rd_size s"

text \<open>
  "\<open>j\<close> more transactions have been served": the first \<open>j\<close> pending addresses and
  data beats are gone, the store has taken their writes in order, and \<open>j\<close> responses
  have been appended. The response channel holds a beat only while the coroutine waits in
  \<^verbatim>\<open>send\<close>, and then just one.
\<close>

definition pairs_done ::
  "AxiLiteRamWrite \<Rightarrow> nat \<Rightarrow> nat list \<Rightarrow> w_beat list \<Rightarrow> store \<Rightarrow> b_beat list
     \<Rightarrow> nat list \<Rightarrow> w_beat list \<Rightarrow> store \<Rightarrow> b_beat list \<Rightarrow> bool" where
  "pairs_done c j P W m B P' W' m' B' \<longleftrightarrow>
     j \<le> length P \<and> j \<le> length W \<and> P' = drop j P \<and> W' = drop j W \<and>
     m' = foldl (apply_write (wr_size c) (wr_byte_lanes c) (strb_mask c)) m (take j (zip P W)) \<and>
     B' = B @ replicate j OKAY_beat"

definition reads_done ::
  "AxiLiteRamRead \<Rightarrow> 8 word list \<Rightarrow> nat \<Rightarrow> nat list \<Rightarrow> r_beat list \<Rightarrow> nat list \<Rightarrow> r_beat list \<Rightarrow> bool" where
  "reads_done c bs j P B P' B' \<longleftrightarrow>
     j \<le> length P \<and> P' = drop j P \<and>
     B' = B @ map (read_beat (rd_size c) (rd_byte_lanes c) bs) (take j P)"

definition b_inv :: "write_pc \<Rightarrow> AxiLiteRamWrite \<Rightarrow> bool" where
  "b_inv pc s \<longleftrightarrow>
     (pc = AwaitB \<longrightarrow> length (b_channel s) \<le> 1) \<and> (pc \<noteq> AwaitB \<longrightarrow> b_channel s = [])"

definition r_inv :: "read_pc \<Rightarrow> AxiLiteRamRead \<Rightarrow> bool" where
  "r_inv pc s \<longleftrightarrow>
     (pc = AwaitR \<longrightarrow> length (r_channel s) \<le> 1) \<and> (pc \<noteq> AwaitR \<longrightarrow> r_channel s = [])"

text \<open>
  What a coroutine never changes: the configuration, the scheduler's data, the beats on
  the wire and (read side) the bytes of the store.
\<close>

definition wr_frame :: "AxiLiteRamWrite \<Rightarrow> AxiLiteRamWrite \<Rightarrow> bool" where
  "wr_frame s s' \<longleftrightarrow>
     wr_size s' = wr_size s \<and> wr_byte_lanes s' = wr_byte_lanes s \<and>
     strb_mask s' = strb_mask s \<and> wr_tasks s' = wr_tasks s \<and> b_wire s' = b_wire s \<and>
     process_write_cr s' = process_write_cr s \<and> wr_fresh s' = wr_fresh s"

definition rd_frame :: "AxiLiteRamRead \<Rightarrow> AxiLiteRamRead \<Rightarrow> bool" where
  "rd_frame s s' \<longleftrightarrow>
     rd_size s' = rd_size s \<and> rd_byte_lanes s' = rd_byte_lanes s \<and>
     rd_tasks s' = rd_tasks s \<and> r_wire s' = r_wire s \<and>
     process_read_cr s' = process_read_cr s \<and> rd_fresh s' = rd_fresh s \<and>
     bytes (rd_mem s') = bytes (rd_mem s)"

text \<open>
  The invariant of a run of one coroutine, relative to the state in which it was
  resumed, and the invariant of an engine with one live coroutine, relative to the state
  \<open>s0\<close> in which its reset was released and to the addresses \<open>A\<close> and data beats
  \<open>W\<close> admitted since.
\<close>

definition run_inv :: "write_pc \<Rightarrow> AxiLiteRamWrite \<Rightarrow> write_pc \<Rightarrow> AxiLiteRamWrite \<Rightarrow> bool" where
  "run_inv pc0 s0 pc s \<longleftrightarrow>
     wr_ok s \<and> wr_frame s0 s \<and> b_inv pc s \<and>
     (\<exists>j. pairs_done s0 j (pending_addrs pc0 s0) (w_channel s0) (wr_mem s0) (b_channel s0)
              (pending_addrs pc s) (w_channel s) (wr_mem s) (b_channel s))"

definition read_run_inv :: "read_pc \<Rightarrow> AxiLiteRamRead \<Rightarrow> read_pc \<Rightarrow> AxiLiteRamRead \<Rightarrow> bool" where
  "read_run_inv pc0 s0 pc s \<longleftrightarrow>
     rd_ok s \<and> rd_frame s0 s \<and> r_inv pc s \<and>
     (\<exists>j. reads_done s0 (bytes (rd_mem s0)) j (pending_reads s0) (r_channel s0)
              (pending_reads s) (r_channel s))"

definition pair_inv ::
  "AxiLiteRamWrite \<Rightarrow> nat list \<Rightarrow> w_beat list \<Rightarrow> AxiLiteRamWrite \<Rightarrow> bool" where
  "pair_inv s0 A W s \<longleftrightarrow>
     wr_ok s \<and> wr_size s = wr_size s0 \<and> wr_byte_lanes s = wr_byte_lanes s0 \<and>
     strb_mask s = strb_mask s0 \<and>
     (\<exists>h pc k. wr_tasks s = [(h, pc)] \<and> b_inv pc s \<and>
        pairs_done s0 k A W (wr_mem s0) (b_wire s0)
          (pending_addrs pc s) (w_channel s) (wr_mem s) (write_responses s))"

definition read_inv :: "AxiLiteRamRead \<Rightarrow> nat list \<Rightarrow> AxiLiteRamRead \<Rightarrow> bool" where
  "read_inv s0 A s \<longleftrightarrow>
     rd_ok s \<and> rd_size s = rd_size s0 \<and> rd_byte_lanes s = rd_byte_lanes s0 \<and>
     bytes (rd_mem s) = bytes (rd_mem s0) \<and>
     (\<exists>h pc k. rd_tasks s = [(h, pc)] \<and> r_inv pc s \<and>
        reads_done s0 (bytes (rd_mem s0)) k A (r_wire s0) (pending_reads s) (read_responses s))"

text \<open>
  Counting for the bound on responses after a reset: queued responses, queued requests and
  requests held by a coroutine never grow in a run of a coroutine or of the scheduler;
  together with the beats on the wire they are bounded by the wire's length \<open>L\<close> at the
  reset plus the beats admitted since.
\<close>

definition awaitw :: "write_pc option \<Rightarrow> nat" where
  "awaitw pco = (case pco of Some (AwaitW addr prot) \<Rightarrow> 1 | _ \<Rightarrow> 0)"

definition wr_load1 :: "write_pc option \<Rightarrow> AxiLiteRamWrite \<Rightarrow> nat" where
  "wr_load1 pco s = length (b_channel s) + length (aw_channel s) + awaitw pco"

definition wr_load2 :: "AxiLiteRamWrite \<Rightarrow> nat" where
  "wr_load2 s = length (b_channel s) + length (w_channel s)"

definition wr_mono :: "write_pc \<Rightarrow> AxiLiteRamWrite \<Rightarrow> write_pc option \<Rightarrow> AxiLiteRamWrite \<Rightarrow> bool" where
  "wr_mono pc0 s0 pco s \<longleftrightarrow>
     wr_frame s0 s \<and> wr_load1 pco s \<le> wr_load1 (Some pc0) s0 \<and> wr_load2 s \<le> wr_load2 s0"

definition awaitw_count :: "(nat \<times> write_pc) list \<Rightarrow> nat" where
  "awaitw_count ts = sum_list (map (\<lambda>t. awaitw (Some (snd t))) ts)"

definition wr_sched_mono ::
  "(nat \<times> write_pc) list \<Rightarrow> AxiLiteRamWrite \<Rightarrow> (nat \<times> write_pc) list \<Rightarrow> AxiLiteRamWrite \<Rightarrow> bool" where
  "wr_sched_mono ts s ts' s' \<longleftrightarrow>
     wr_frame s s' \<and>
     length (b_channel s') + length (aw_channel s') + awaitw_count ts'
       \<le> length (b_channel s) + length (aw_channel s) + awaitw_count ts \<and>
     wr_load2 s' \<le> wr_load2 s \<and>
     length ts' \<le> length ts \<and> set (map fst ts') \<subseteq> set (map fst ts)"

definition wr_bound :: "nat \<Rightarrow> nat \<Rightarrow> nat \<Rightarrow> AxiLiteRamWrite \<Rightarrow> bool" where
  "wr_bound L a w s \<longleftrightarrow>
     length (b_wire s) + length (b_channel s) + length (aw_channel s) + awaitw_count (wr_tasks s)
       \<le> L + a \<and>
     length (b_wire s) + length (b_channel s) + length (w_channel s) \<le> L + w"

definition rd_mono :: "AxiLiteRamRead \<Rightarrow> AxiLiteRamRead \<Rightarrow> bool" where
  "rd_mono s0 s \<longleftrightarrow>
     rd_frame s0 s \<and>
     length (r_channel s) + length (ar_channel s) \<le> length (r_channel s0) + length (ar_channel s0)"

definition rd_sched_mono ::
  "(nat \<times> read_pc) list \<Rightarrow> AxiLiteRamRead \<Rightarrow> (nat \<times> read_pc) list \<Rightarrow> AxiLiteRamRead \<Rightarrow> bool" where
  "rd_sched_mono ts s ts' s' \<longleftrightarrow>
     rd_mono s s' \<and> length ts' \<le> length ts \<and> set (map fst ts') \<subseteq> set (map fst ts)"

definition rd_bound :: "nat \<Rightarrow> nat \<Rightarrow> AxiLiteRamRead \<Rightarrow> bool" where
  "rd_bound L a s \<longleftrightarrow>
     length (r_wire s) + length (r_channel s) + length (ar_channel s) \<le> L + a"

section \<open>Lemmas\<close>

subsection \<open>Bytes, strobe bits and the byte lanes\<close>

lemma strb_test_bit: "((s::nat) AND push_bit i 1 \<noteq> 0) = bit s i"
  by (simp add: bit_iff_and_push_bit_not_eq_0)

lemma length_to_bytes_le: "length (to_bytes_le n x) = n"
  by (induction n arbitrary: x) auto

lemma to_bytes_le_nth: "i < n \<Longrightarrow> to_bytes_le n x ! i = word_of_nat (x div 256 ^ i)"
proof (induction n arbitrary: x i)
  case 0
  then show ?case by simp
next
  case (Suc n)
  show ?case
  proof (cases i)
    case 0
    have "(word_of_nat (x mod 256) :: 8 word) = word_of_nat x"
      by (simp add: word_of_nat_eq_iff take_bit_eq_mod)
    with 0 show ?thesis by simp
  next
    case (Suc j)
    with Suc.prems have "j < n" by simp
    then have "to_bytes_le n (x div 256) ! j = word_of_nat (x div 256 div 256 ^ j)"
      by (rule Suc.IH)
    with Suc show ?thesis by (simp add: div_mult2_eq)
  qed
qed

lemma from_to_bytes_le: "int_from_bytes (to_bytes_le n x) = x mod 256 ^ n"
proof (induction n arbitrary: x)
  case 0
  then show ?case by simp
next
  case (Suc n)
  have "unat (of_nat (x mod 256) :: 8 word) = x mod 256"
    by (simp add: unat_of_nat)
  then have "int_from_bytes (to_bytes_le (Suc n) x) = x mod 256 + 256 * ((x div 256) mod 256 ^ n)"
    using Suc.IH by simp
  also have "\<dots> = x mod 256 ^ Suc n"
    by (simp add: mod_mult2_eq)
  finally show ?case .
qed

lemma length_put_lanes: "length (put_lanes n strb p data sz bs) = length bs"
  by (induction n) (auto simp: put_lanes_def)

lemma put_lanes_Suc:
  "put_lanes (Suc n) strb p data sz bs =
     (if bit strb n then (put_lanes n strb p data sz bs)[(p + n) mod sz := data ! n]
      else put_lanes n strb p data sz bs)"
  by (simp add: put_lanes_def)

lemma slice_one: "i < length data \<Longrightarrow> take (Suc 0) (drop i data) = [data ! i]"
proof -
  assume "i < length data"
  then have "drop i data = data ! i # drop (Suc i) data"
    by (simp add: Cons_nth_drop_Suc)
  then show ?thesis by simp
qed

lemma write_lane_bit:
  "write_lane strb data i m =
     (if bit strb i then mem_write (take (Suc 0) (drop i data)) m else mem_seek_cur 1 m)"
  unfolding write_lane_def strb_test_bit by simp

lemma write_lanes_eq:
  "n \<le> length data \<Longrightarrow>
   write_lanes n strb data m =
     \<lparr>bytes = put_lanes n strb (pos m) data (length (bytes m)) (bytes m), pos = pos m + n\<rparr>"
proof (induction n)
  case 0
  then show ?case by (simp add: write_lanes_def put_lanes_def)
next
  case (Suc n)
  then have IH: "write_lanes n strb data m =
     \<lparr>bytes = put_lanes n strb (pos m) data (length (bytes m)) (bytes m), pos = pos m + n\<rparr>"
    and n: "n < length data" by simp_all
  have "write_lanes (Suc n) strb data m = write_lane strb data n (write_lanes n strb data m)"
    by (simp add: write_lanes_def)
  also have "\<dots> = \<lparr>bytes = put_lanes (Suc n) strb (pos m) data (length (bytes m)) (bytes m),
                    pos = pos m + Suc n\<rparr>"
    using n
    by (simp add: IH write_lane_bit slice_one mem_write_def mem_write_byte_def
        mem_seek_cur_def put_lanes_Suc length_put_lanes)
  finally show ?case .
qed

lemma put_lanes_untouched:
  "(\<And>i. i < n \<Longrightarrow> bit strb i \<Longrightarrow> (p + i) mod sz \<noteq> k) \<Longrightarrow>
   put_lanes n strb p data sz bs ! k = bs ! k"
proof (induction n)
  case 0
  then show ?case by (simp add: put_lanes_def)
next
  case (Suc n)
  then have "put_lanes n strb p data sz bs ! k = bs ! k" by simp
  moreover have "bit strb n \<Longrightarrow> (p + n) mod sz \<noteq> k" using Suc.prems by simp
  ultimately show ?case by (simp add: put_lanes_Suc)
qed

lemma mod_add_small_neq:
  fixes x d sz :: nat
  assumes "x < sz" "0 < d" "d < sz"
  shows "(x + d) mod sz \<noteq> x"
proof (cases "x + d < sz")
  case True
  with assms show ?thesis by simp
next
  case False
  then have "(x + d) mod sz = (x + d - sz) mod sz"
    by (simp add: le_mod_geq)
  also have "\<dots> = x + d - sz" using assms by simp
  finally show ?thesis using assms False by simp
qed

lemma lane_offsets_distinct:
  fixes p :: nat
  assumes "i < j" "j < n" "n \<le> sz"
  shows "(p + i) mod sz \<noteq> (p + j) mod sz"
proof -
  have "(p + j) mod sz = ((p + i) + (j - i)) mod sz" using assms by simp
  also have "\<dots> = ((p + i) mod sz + (j - i)) mod sz" by (simp add: mod_add_left_eq)
  also have "\<dots> \<noteq> (p + i) mod sz"
    using assms by (intro mod_add_small_neq) simp_all
  finally show ?thesis by simp
qed

lemma put_lanes_nth:
  assumes "n \<le> sz" and "length bs = sz" and "j < n"
  shows "put_lanes n strb p data sz bs ! ((p + j) mod sz) =
           (if bit strb j then data ! j else bs ! ((p + j) mod sz))"
  using assms
proof (induction n)
  case 0
  then show ?case by simp
next
  case (Suc n)
  have len: "length (put_lanes n strb p data sz bs) = sz"
    using Suc.prems by (simp add: length_put_lanes)
  have lt: "(p + j) mod sz < sz" using Suc.prems by simp
  show ?case
  proof (cases "j = n")
    case True
    have "put_lanes n strb p data sz bs ! ((p + n) mod sz) = bs ! ((p + n) mod sz)"
    proof (rule put_lanes_untouched)
      fix i assume "i < n"
      then show "(p + i) mod sz \<noteq> (p + n) mod sz"
        using Suc.prems by (intro lane_offsets_distinct [of i n "Suc n"]) simp_all
    qed
    with True len lt show ?thesis by (simp add: put_lanes_Suc)
  next
    case False
    with Suc.prems have jn: "j < n" by simp
    then have neq: "(p + j) mod sz \<noteq> (p + n) mod sz"
      using Suc.prems by (intro lane_offsets_distinct [of j n "Suc n"]) simp_all
    have "put_lanes n strb p data sz bs ! ((p + j) mod sz) =
           (if bit strb j then data ! j else bs ! ((p + j) mod sz))"
      using Suc.prems jn by (intro Suc.IH) simp_all
    with neq show ?thesis by (simp add: put_lanes_Suc)
  qed
qed

lemma put_lanes_no_strobe: "(\<And>i. i < n \<Longrightarrow> \<not> bit strb i) \<Longrightarrow> put_lanes n strb p data sz bs = bs"
  by (induction n) (simp_all add: put_lanes_Suc put_lanes_def)

lemma write_access_eq:
  assumes "0 < sz" and "data < 256 ^ bl"
  shows "write_access sz bl addr data strb m =
           (None, \<lparr>bytes = put_lanes bl strb (addr mod sz) (to_bytes_le bl data)
                              (length (bytes m)) (bytes m),
                   pos = addr mod sz + bl\<rparr>)"
  using assms
  by (simp add: write_access_def int_to_bytes_def mem_seek_def write_lanes_eq length_to_bytes_le)

lemma read_access_eq:
  assumes "0 < sz"
  shows "read_access sz bl addr m =
           Inr (\<lparr>rdata = int_from_bytes
                     (map (\<lambda>i. bytes m ! ((addr mod sz + i) mod length (bytes m))) [0..<bl]),
                  rresp = OKAY\<rparr>,
                m\<lparr>pos := addr mod sz + bl\<rparr>)"
  using assms by (simp add: read_access_def mem_read_def mem_seek_def)

subsection \<open>The write coroutine, step by step\<close>

lemma pairs_done_refl: "pairs_done c 0 P W m B P W m B"
  by (simp add: pairs_done_def)

lemma pairs_done_trans:
  assumes "pairs_done c j P W m B P1 W1 m1 B1" and "pairs_done c i P1 W1 m1 B1 P2 W2 m2 B2"
  shows "pairs_done c (j + i) P W m B P2 W2 m2 B2"
proof -
  have "take (j + i) (zip P W) = take j (zip P W) @ take i (zip (drop j P) (drop j W))"
    by (simp add: take_add drop_zip)
  with assms show ?thesis
    by (auto simp: pairs_done_def replicate_add [symmetric] add.commute)
qed

lemma write_step_AW_Nil: "aw_channel s = [] \<Longrightarrow> write_step AwaitAW s = Blocked"
  by (simp add: write_step_def)

lemma write_step_AW_Cons:
  "aw_channel s = aw # rest \<Longrightarrow> 0 < wr_byte_lanes s \<Longrightarrow>
   write_step AwaitAW s =
     Next (AwaitW (awaddr aw div wr_byte_lanes s * wr_byte_lanes s) (get_prot (awprot aw)))
          (s\<lparr>aw_channel := rest\<rparr>)"
  by (simp add: write_step_def align_addr_def)

lemma write_step_W_Nil: "w_channel s = [] \<Longrightarrow> write_step (AwaitW addr prot) s = Blocked"
  by (simp add: write_step_def)

lemma write_step_W_Cons:
  assumes "w_channel s = w # rest" and "0 < wr_size s" and "wdata w < 256 ^ wr_byte_lanes s"
  shows "write_step (AwaitW addr prot) s =
     Next AwaitB
       (s\<lparr>w_channel := rest,
          wr_mem := apply_write (wr_size s) (wr_byte_lanes s) (strb_mask s) (wr_mem s) (addr, w),
          b_channel := b_channel s @ [OKAY_beat]\<rparr>)"
  using assms(1)
    write_access_eq [OF assms(2,3), of addr "get_strb (strb_mask s) w" "wr_mem s"]
  by (simp add: write_step_def apply_write_def OKAY_beat_def)

lemma write_step_B_Nil: "b_channel s = [] \<Longrightarrow> write_step AwaitB s = Next AwaitAW s"
  by (simp add: write_step_def)

lemma write_step_B_Cons: "b_channel s = b # rest \<Longrightarrow> write_step AwaitB s = Blocked"
  by (simp add: write_step_def)

lemma pairs_done_one:
  "pairs_done c (Suc 0) (a # X) (w # rest) m B X rest
     (apply_write (wr_size c) (wr_byte_lanes c) (strb_mask c) m (a, w)) (B @ [OKAY_beat])"
  by (simp add: pairs_done_def)

lemma write_step_Next:
  assumes ok: "wr_ok s" and b: "b_inv pc s" and st: "write_step pc s = Next pc' s'"
  shows "wr_ok s' \<and> wr_frame s s' \<and> b_inv pc' s' \<and>
         (\<exists>i. pairs_done s i (pending_addrs pc s) (w_channel s) (wr_mem s) (b_channel s)
                 (pending_addrs pc' s') (w_channel s') (wr_mem s') (b_channel s'))"
proof (cases pc)
  case AwaitAW
  show ?thesis
  proof (cases "aw_channel s")
    case Nil
    with AwaitAW st show ?thesis by (simp add: write_step_AW_Nil)
  next
    case (Cons aw rest)
    from ok have "0 < wr_byte_lanes s" by (simp add: wr_ok_def)
    from write_step_AW_Cons [OF Cons this] st AwaitAW
    have pc': "pc' = AwaitW (awaddr aw div wr_byte_lanes s * wr_byte_lanes s) (get_prot (awprot aw))"
      and s': "s' = s\<lparr>aw_channel := rest\<rparr>" by simp_all
    have "pending_addrs pc' s' = pending_addrs pc s"
      by (simp add: pc' s' AwaitAW Cons pending_addrs_def)
    moreover have "w_channel s' = w_channel s" "wr_mem s' = wr_mem s" "b_channel s' = b_channel s"
      by (simp_all add: s')
    ultimately have "pairs_done s 0 (pending_addrs pc s) (w_channel s) (wr_mem s) (b_channel s)
                 (pending_addrs pc' s') (w_channel s') (wr_mem s') (b_channel s')"
      by (simp add: pairs_done_refl)
    moreover have "wr_ok s'" using ok by (simp add: s' wr_ok_def)
    moreover have "wr_frame s s'" by (simp add: s' wr_frame_def)
    moreover have "b_inv pc' s'" using b by (simp add: s' pc' AwaitAW b_inv_def)
    ultimately show ?thesis by blast
  qed
next
  case (AwaitW addr prot)
  show ?thesis
  proof (cases "w_channel s")
    case Nil
    with AwaitW st show ?thesis by (simp add: write_step_W_Nil)
  next
    case (Cons w rest)
    with ok have fit: "wdata w < 256 ^ wr_byte_lanes s" and sz: "0 < wr_size s"
      and rest: "list_all (\<lambda>w. wdata w < 256 ^ wr_byte_lanes s) rest"
      by (simp_all add: wr_ok_def)
    from write_step_W_Cons [OF Cons sz fit, of addr prot] st AwaitW
    have pc': "pc' = AwaitB"
      and s': "s' = s\<lparr>w_channel := rest,
          wr_mem := apply_write (wr_size s) (wr_byte_lanes s) (strb_mask s) (wr_mem s) (addr, w),
          b_channel := b_channel s @ [OKAY_beat]\<rparr>" by simp_all
    have "pending_addrs pc s = addr # pending_addrs pc' s'"
      by (simp add: pc' s' AwaitW pending_addrs_def)
    moreover have "w_channel s' = rest" "b_channel s' = b_channel s @ [OKAY_beat]"
      "wr_mem s' = apply_write (wr_size s) (wr_byte_lanes s) (strb_mask s) (wr_mem s) (addr, w)"
      by (simp_all add: s')
    ultimately have "pairs_done s (Suc 0) (pending_addrs pc s) (w_channel s) (wr_mem s) (b_channel s)
                 (pending_addrs pc' s') (w_channel s') (wr_mem s') (b_channel s')"
      by (simp add: Cons pairs_done_one)
    moreover have "wr_ok s'" using ok rest by (simp add: s' wr_ok_def)
    moreover have "wr_frame s s'" by (simp add: s' wr_frame_def)
    moreover have "b_inv pc' s'" using b by (simp add: s' pc' AwaitW b_inv_def)
    ultimately show ?thesis by blast
  qed
next
  case AwaitB
  show ?thesis
  proof (cases "b_channel s")
    case Nil
    from write_step_B_Nil [OF Nil] st AwaitB have pc': "pc' = AwaitAW" and s': "s' = s"
      by simp_all
    have "pending_addrs pc' s' = pending_addrs pc s"
      by (simp add: pc' s' AwaitB pending_addrs_def)
    then have "pairs_done s 0 (pending_addrs pc s) (w_channel s) (wr_mem s) (b_channel s)
                 (pending_addrs pc' s') (w_channel s') (wr_mem s') (b_channel s')"
      by (simp add: s' pairs_done_refl)
    moreover have "wr_frame s s'" by (simp add: s' wr_frame_def)
    moreover have "b_inv pc' s'" using Nil by (simp add: s' pc' b_inv_def)
    ultimately show ?thesis using ok s' by blast
  next
    case (Cons b rest)
    with AwaitB st show ?thesis by (simp add: write_step_B_Cons)
  qed
qed

lemma write_step_not_Raised:
  assumes ok: "wr_ok s"
  shows "write_step pc s \<noteq> Raised e s'"
proof (cases pc)
  case AwaitAW
  from ok have bl: "0 < wr_byte_lanes s" by (simp add: wr_ok_def)
  show ?thesis
  proof (cases "aw_channel s")
    case Nil
    with AwaitAW show ?thesis by (simp add: write_step_AW_Nil)
  next
    case (Cons aw rest)
    with AwaitAW bl show ?thesis by (simp add: write_step_AW_Cons)
  qed
next
  case (AwaitW addr prot)
  show ?thesis
  proof (cases "w_channel s")
    case Nil
    with AwaitW show ?thesis by (simp add: write_step_W_Nil)
  next
    case (Cons w rest)
    with ok have fit: "wdata w < 256 ^ wr_byte_lanes s" and sz: "0 < wr_size s"
      by (simp_all add: wr_ok_def)
    from write_step_W_Cons [OF Cons sz fit, of addr prot] AwaitW show ?thesis by simp
  qed
next
  case AwaitB
  then show ?thesis
    by (cases "b_channel s") (simp_all add: write_step_B_Nil write_step_B_Cons)
qed

lemma write_step_Blocked:
  assumes "write_step pc s = Blocked" and "wr_ok s"
  shows "pending_addrs pc s = [] \<or> w_channel s = [] \<or> (pc = AwaitB \<and> b_channel s \<noteq> [])"
proof (cases pc)
  case AwaitAW
  from assms(2) have bl: "0 < wr_byte_lanes s" by (simp add: wr_ok_def)
  show ?thesis
  proof (cases "aw_channel s")
    case Nil
    with AwaitAW show ?thesis by (simp add: pending_addrs_def)
  next
    case (Cons aw rest)
    with AwaitAW bl assms(1) show ?thesis by (simp add: write_step_AW_Cons)
  qed
next
  case (AwaitW addr prot)
  show ?thesis
  proof (cases "w_channel s")
    case Nil
    then show ?thesis by simp
  next
    case (Cons w rest)
    with assms(2) have fit: "wdata w < 256 ^ wr_byte_lanes s" and sz: "0 < wr_size s"
      by (simp_all add: wr_ok_def)
    from write_step_W_Cons [OF Cons sz fit, of addr prot] AwaitW assms(1) show ?thesis by simp
  qed
next
  case AwaitB
  with assms(1) show ?thesis
    by (cases "b_channel s") (simp_all add: write_step_B_Nil)
qed

subsection \<open>A run of the write coroutine\<close>

lemma write_run_rule:
  assumes step: "\<And>pc s pc' s'. I pc s \<Longrightarrow> write_step pc s = Next pc' s' \<Longrightarrow> I pc' s'"
    and safe: "\<And>pc s e s'. I pc s \<Longrightarrow> write_step pc s \<noteq> Raised e s'"
    and start: "I pc s"
  shows "\<exists>pc' s'. write_run pc s = (Some pc', s') \<and> I pc' s' \<and> write_step pc' s' = Blocked"
  using start
proof (induction pc s rule: write_run.induct)
  case (1 pc s)
  show ?case
  proof (cases "write_step pc s")
    case Blocked
    then have "write_run pc s = (Some pc, s)"
      by (subst write_run.simps) simp
    with "1.prems" Blocked show ?thesis by blast
  next
    case (Next pc1 s1)
    from "1.prems" Next have "I pc1 s1" by (rule step)
    with Next have "\<exists>pc' s'. write_run pc1 s1 = (Some pc', s') \<and> I pc' s' \<and> write_step pc' s' = Blocked"
      by (rule "1.IH")
    moreover from Next have "write_run pc s = write_run pc1 s1"
      by (subst write_run.simps) simp
    ultimately show ?thesis by simp
  next
    case (Raised e s1)
    with safe [OF "1.prems"] show ?thesis by blast
  qed
qed

lemma pairs_done_cfg:
  "wr_frame c c' \<Longrightarrow> pairs_done c' j P W m B P' W' m' B' = pairs_done c j P W m B P' W' m' B'"
  by (simp add: pairs_done_def wr_frame_def)

lemma wr_frame_trans: "wr_frame a b \<Longrightarrow> wr_frame b c \<Longrightarrow> wr_frame a c"
  by (simp add: wr_frame_def)

lemma run_inv_step:
  assumes "run_inv pc0 s0 pc s" and "write_step pc s = Next pc' s'"
  shows "run_inv pc0 s0 pc' s'"
proof -
  from assms(1) have ok: "wr_ok s" and fr: "wr_frame s0 s" and b: "b_inv pc s"
    by (simp_all add: run_inv_def)
  from assms(1) obtain j where
    j: "pairs_done s0 j (pending_addrs pc0 s0) (w_channel s0) (wr_mem s0) (b_channel s0)
              (pending_addrs pc s) (w_channel s) (wr_mem s) (b_channel s)"
    unfolding run_inv_def by blast
  from write_step_Next [OF ok b assms(2)]
  obtain i where ok': "wr_ok s'" and fr': "wr_frame s s'" and b': "b_inv pc' s'"
    and i: "pairs_done s i (pending_addrs pc s) (w_channel s) (wr_mem s) (b_channel s)
                 (pending_addrs pc' s') (w_channel s') (wr_mem s') (b_channel s')"
    by blast
  from i fr have "pairs_done s0 i (pending_addrs pc s) (w_channel s) (wr_mem s) (b_channel s)
                 (pending_addrs pc' s') (w_channel s') (wr_mem s') (b_channel s')"
    by (simp add: pairs_done_cfg)
  with j have "pairs_done s0 (j + i) (pending_addrs pc0 s0) (w_channel s0) (wr_mem s0) (b_channel s0)
                 (pending_addrs pc' s') (w_channel s') (wr_mem s') (b_channel s')"
    by (rule pairs_done_trans)
  moreover from fr fr' have "wr_frame s0 s'" by (rule wr_frame_trans)
  ultimately show ?thesis using ok' b' unfolding run_inv_def by blast
qed

lemma run_inv_safe: "run_inv pc0 s0 pc s \<Longrightarrow> write_step pc s \<noteq> Raised e s'"
  by (simp add: run_inv_def write_step_not_Raised)

lemma run_inv_start:
  assumes "wr_ok s" and "b_inv pc s"
  shows "run_inv pc s pc s"
proof -
  have "\<exists>j. pairs_done s j (pending_addrs pc s) (w_channel s) (wr_mem s) (b_channel s)
              (pending_addrs pc s) (w_channel s) (wr_mem s) (b_channel s)"
    by (rule exI [of _ 0]) (rule pairs_done_refl)
  with assms show ?thesis by (simp add: run_inv_def wr_frame_def)
qed

lemma write_run_pairs:
  assumes "wr_ok s" and "b_inv pc s"
  shows "\<exists>pc' s'. write_run pc s = (Some pc', s') \<and> run_inv pc s pc' s' \<and>
           write_step pc' s' = Blocked"
proof (rule write_run_rule [where I = "run_inv pc s"])
  show "run_inv pc s pc s" using assms by (rule run_inv_start)
next
  fix p t p' t' assume "run_inv pc s p t" "write_step p t = Next p' t'"
  then show "run_inv pc s p' t'" by (rule run_inv_step)
next
  fix p t e t' assume "run_inv pc s p t"
  then show "write_step p t \<noteq> Raised e t'" by (rule run_inv_safe)
qed

subsection \<open>The write engine over a sequence of events\<close>

lemma pairs_done_snoc_addr:
  "pairs_done c k A W m B P W' m' B' \<Longrightarrow> pairs_done c k (A @ [x]) W m B (P @ [x]) W' m' B'"
  by (simp add: pairs_done_def take_zip)

lemma pairs_done_snoc_w:
  "pairs_done c k A W m B P W' m' B' \<Longrightarrow> pairs_done c k A (W @ [x]) m B P (W' @ [x]) m' B'"
  by (simp add: pairs_done_def take_zip)

lemma pairs_done_prefix:
  "pairs_done c j P W m B P' W' m' B' \<Longrightarrow> pairs_done c j P W m (X @ B) P' W' m' (X @ B')"
  by (simp add: pairs_done_def)

lemma pair_inv_start:
  assumes "write_idle s0" and "0 < wr_byte_lanes s0" and "0 < wr_size s0"
  shows "pair_inv s0 [] [] (write_handle_reset False s0)"
proof -
  let ?s = "write_handle_reset False s0"
  from assms(1) have s: "?s = s0\<lparr>process_write_cr := Some (wr_fresh s0),
                      wr_tasks := [(wr_fresh s0, AwaitAW)],
                      wr_fresh := Suc (wr_fresh s0)\<rparr>"
    by (simp add: write_handle_reset_def write_idle_def)
  have "pairs_done s0 0 [] [] (wr_mem s0) (b_wire s0)
          (pending_addrs AwaitAW ?s) (w_channel ?s) (wr_mem ?s) (write_responses ?s)"
    using assms(1) by (simp add: s pairs_done_def pending_addrs_def write_idle_def write_responses_def)
  moreover have "b_inv AwaitAW ?s" using assms(1) by (simp add: s b_inv_def write_idle_def)
  moreover have "wr_tasks ?s = [(wr_fresh s0, AwaitAW)]" by (simp add: s)
  moreover have "wr_ok ?s" using assms by (simp add: s wr_ok_def write_idle_def)
  moreover have "wr_size ?s = wr_size s0" "wr_byte_lanes ?s = wr_byte_lanes s0"
    "strb_mask ?s = strb_mask s0" by (simp_all add: s)
  ultimately show ?thesis unfolding pair_inv_def by blast
qed

lemma pair_inv_AW:
  assumes "pair_inv s0 A W s"
  shows "pair_inv s0 (A @ [awaddr aw div wr_byte_lanes s0 * wr_byte_lanes s0]) W
           (write_event_step s (WAdmitAW aw))"
proof -
  let ?s = "s\<lparr>aw_channel := aw_channel s @ [aw]\<rparr>"
  let ?x = "awaddr aw div wr_byte_lanes s0 * wr_byte_lanes s0"
  from assms obtain h pc k where t: "wr_tasks s = [(h, pc)]" and b: "b_inv pc s"
    and k: "pairs_done s0 k A W (wr_mem s0) (b_wire s0)
          (pending_addrs pc s) (w_channel s) (wr_mem s) (write_responses s)"
    and bl: "wr_byte_lanes s = wr_byte_lanes s0"
    unfolding pair_inv_def by blast
  have "pending_addrs pc ?s = pending_addrs pc s @ [?x]"
    by (simp add: pending_addrs_def bl)
  with pairs_done_snoc_addr [OF k, of ?x]
  have "pairs_done s0 k (A @ [?x]) W (wr_mem s0) (b_wire s0)
          (pending_addrs pc ?s) (w_channel ?s) (wr_mem ?s) (write_responses ?s)"
    by (simp add: write_responses_def)
  moreover have "b_inv pc ?s" using b by (simp add: b_inv_def)
  moreover have "wr_tasks ?s = [(h, pc)]" using t by simp
  moreover have "wr_ok ?s \<and> wr_size ?s = wr_size s0 \<and> wr_byte_lanes ?s = wr_byte_lanes s0 \<and>
    strb_mask ?s = strb_mask s0" using assms by (auto simp: pair_inv_def wr_ok_def)
  ultimately have "pair_inv s0 (A @ [?x]) W ?s" unfolding pair_inv_def by blast
  then show ?thesis by simp
qed

lemma pair_inv_W:
  assumes "pair_inv s0 A W s" and "wdata w < 256 ^ wr_byte_lanes s0"
  shows "pair_inv s0 A (W @ [w]) (write_event_step s (WAdmitW w))"
proof -
  let ?s = "s\<lparr>w_channel := w_channel s @ [w]\<rparr>"
  from assms obtain h pc k where t: "wr_tasks s = [(h, pc)]" and b: "b_inv pc s"
    and k: "pairs_done s0 k A W (wr_mem s0) (b_wire s0)
          (pending_addrs pc s) (w_channel s) (wr_mem s) (write_responses s)"
    and bl: "wr_byte_lanes s = wr_byte_lanes s0"
    unfolding pair_inv_def by blast
  have "pending_addrs pc ?s = pending_addrs pc s"
    by (simp add: pending_addrs_def)
  with pairs_done_snoc_w [OF k, of w]
  have "pairs_done s0 k A (W @ [w]) (wr_mem s0) (b_wire s0)
          (pending_addrs pc ?s) (w_channel ?s) (wr_mem ?s) (write_responses ?s)"
    by (simp add: write_responses_def)
  moreover have "b_inv pc ?s" using b by (simp add: b_inv_def)
  moreover have "wr_tasks ?s = [(h, pc)]" using t by simp
  moreover have "wr_ok ?s \<and> wr_size ?s = wr_size s0 \<and> wr_byte_lanes ?s = wr_byte_lanes s0 \<and>
    strb_mask ?s = strb_mask s0" using assms by (auto simp: pair_inv_def wr_ok_def)
  ultimately have "pair_inv s0 A (W @ [w]) ?s" unfolding pair_inv_def by blast
  then show ?thesis by simp
qed

lemma pair_inv_B:
  assumes "pair_inv s0 A W s"
  shows "pair_inv s0 A W (write_event_step s WHandshakeB) \<and>
         b_channel (write_event_step s WHandshakeB) = [] \<and>
         write_responses (write_event_step s WHandshakeB) = write_responses s"
proof (cases "b_channel s")
  case Nil
  with assms show ?thesis by simp
next
  case (Cons x rest)
  let ?s = "s\<lparr>b_channel := rest, b_wire := b_wire s @ [x]\<rparr>"
  from assms obtain h pc k where t: "wr_tasks s = [(h, pc)]" and b: "b_inv pc s"
    and k: "pairs_done s0 k A W (wr_mem s0) (b_wire s0)
          (pending_addrs pc s) (w_channel s) (wr_mem s) (write_responses s)"
    unfolding pair_inv_def by blast
  from b Cons have rest: "rest = []" by (cases "pc = AwaitB") (simp_all add: b_inv_def)
  have r: "write_responses ?s = write_responses s" by (simp add: write_responses_def Cons)
  have "pending_addrs pc ?s = pending_addrs pc s" by (simp add: pending_addrs_def)
  with k r have "pairs_done s0 k A W (wr_mem s0) (b_wire s0)
          (pending_addrs pc ?s) (w_channel ?s) (wr_mem ?s) (write_responses ?s)"
    by simp
  moreover have "b_inv pc ?s" using b rest by (simp add: b_inv_def)
  moreover have "wr_tasks ?s = [(h, pc)]" using t by simp
  moreover have "wr_ok ?s \<and> wr_size ?s = wr_size s0 \<and> wr_byte_lanes ?s = wr_byte_lanes s0 \<and>
    strb_mask ?s = strb_mask s0" using assms by (auto simp: pair_inv_def wr_ok_def)
  ultimately have "pair_inv s0 A W ?s" unfolding pair_inv_def by blast
  with Cons rest r show ?thesis by simp
qed

lemma pairs_done_cfg3:
  "wr_size c' = wr_size c \<Longrightarrow> wr_byte_lanes c' = wr_byte_lanes c \<Longrightarrow> strb_mask c' = strb_mask c \<Longrightarrow>
   pairs_done c' j P W m B P' W' m' B' = pairs_done c j P W m B P' W' m' B'"
  by (simp add: pairs_done_def)

lemma pair_inv_count:
  assumes "pair_inv s0 A W s"
  shows "\<exists>k. k \<le> length A \<and> k \<le> length W \<and>
             write_responses s = b_wire s0 @ replicate k OKAY_beat \<and>
             wr_mem s = foldl (apply_write (wr_size s0) (wr_byte_lanes s0) (strb_mask s0))
                          (wr_mem s0) (take k (zip A W))"
  using assms unfolding pair_inv_def pairs_done_def by blast

lemma pair_inv_Run:
  assumes inv: "pair_inv s0 A W s"
  shows "pair_inv s0 A W (write_event_step s WRun) \<and>
         (b_channel s = [] \<longrightarrow>
            min (Suc (length (write_responses s))) (length (b_wire s0) + min (length A) (length W))
              \<le> length (write_responses (write_event_step s WRun)))"
proof -
  from inv obtain h pc k where t: "wr_tasks s = [(h, pc)]" and b: "b_inv pc s"
    and k: "pairs_done s0 k A W (wr_mem s0) (b_wire s0)
          (pending_addrs pc s) (w_channel s) (wr_mem s) (write_responses s)"
    unfolding pair_inv_def by blast
  from inv have ok: "wr_ok s" and cfg: "wr_size s = wr_size s0"
    "wr_byte_lanes s = wr_byte_lanes s0" "strb_mask s = strb_mask s0"
    by (simp_all add: pair_inv_def)
  from write_run_pairs [OF ok b] obtain pc' s1 where
    run: "write_run pc s = (Some pc', s1)" and ri: "run_inv pc s pc' s1"
    and bl: "write_step pc' s1 = Blocked" by blast
  let ?s = "s1\<lparr>wr_tasks := [(h, pc')]\<rparr>"
  have ev: "write_event_step s WRun = ?s" by (simp add: t run)
  from ri have ok1: "wr_ok s1" and fr: "wr_frame s s1" and b1: "b_inv pc' s1"
    by (simp_all add: run_inv_def)
  from ri obtain j where
    j: "pairs_done s j (pending_addrs pc s) (w_channel s) (wr_mem s) (b_channel s)
              (pending_addrs pc' s1) (w_channel s1) (wr_mem s1) (b_channel s1)"
    unfolding run_inv_def by blast
  have w1: "b_wire s1 = b_wire s" using fr by (simp add: wr_frame_def)
  from pairs_done_prefix [OF j, of "b_wire s"]
  have "pairs_done s j (pending_addrs pc s) (w_channel s) (wr_mem s) (write_responses s)
              (pending_addrs pc' s1) (w_channel s1) (wr_mem s1) (write_responses s1)"
    by (simp add: w1 write_responses_def)
  then have "pairs_done s0 j (pending_addrs pc s) (w_channel s) (wr_mem s) (write_responses s)
              (pending_addrs pc' s1) (w_channel s1) (wr_mem s1) (write_responses s1)"
    by (simp add: pairs_done_cfg3 [OF cfg])
  with k have kj: "pairs_done s0 (k + j) A W (wr_mem s0) (b_wire s0)
              (pending_addrs pc' s1) (w_channel s1) (wr_mem s1) (write_responses s1)"
    by (rule pairs_done_trans)
  have same: "pending_addrs pc' ?s = pending_addrs pc' s1" "w_channel ?s = w_channel s1"
    "wr_mem ?s = wr_mem s1" "write_responses ?s = write_responses s1"
    by (simp_all add: pending_addrs_def write_responses_def)
  have "pairs_done s0 (k + j) A W (wr_mem s0) (b_wire s0)
              (pending_addrs pc' ?s) (w_channel ?s) (wr_mem ?s) (write_responses ?s)"
    using kj by (simp only: same)
  moreover have "b_inv pc' ?s" using b1 by (simp add: b_inv_def)
  moreover have "wr_tasks ?s = [(h, pc')]" by simp
  moreover have "wr_ok ?s \<and> wr_size ?s = wr_size s0 \<and> wr_byte_lanes ?s = wr_byte_lanes s0 \<and>
    strb_mask ?s = strb_mask s0" using ok1 fr cfg by (auto simp: wr_ok_def wr_frame_def)
  ultimately have inv': "pair_inv s0 A W ?s" unfolding pair_inv_def by blast
  have prog: "min (Suc (length (write_responses s))) (length (b_wire s0) + min (length A) (length W))
              \<le> length (write_responses ?s)" if e: "b_channel s = []"
  proof -
    from k have rs: "write_responses s = b_wire s0 @ replicate k OKAY_beat"
      by (simp add: pairs_done_def)
    from kj have rs1: "write_responses s1 = b_wire s0 @ replicate (k + j) OKAY_beat"
      and pa: "pending_addrs pc' s1 = drop (k + j) A" and wa: "w_channel s1 = drop (k + j) W"
      by (simp_all add: pairs_done_def)
    from j e have bc: "b_channel s1 = replicate j OKAY_beat" by (simp add: pairs_done_def)
    show ?thesis
    proof (cases j)
      case 0
      with bc have "b_channel s1 = []" by simp
      with write_step_Blocked [OF bl ok1]
      have "pending_addrs pc' s1 = [] \<or> w_channel s1 = []" by blast
      with pa wa have "length A \<le> k + j \<or> length W \<le> k + j" by simp
      then show ?thesis by (auto simp: same rs1)
    next
      case (Suc j')
      then show ?thesis by (simp add: same rs rs1)
    qed
  qed
  from inv' prog show ?thesis by (simp only: ev) blast
qed

lemma write_exec_Cons: "write_exec s (e # es) = write_exec (write_event_step s e) es"
  by (simp add: write_exec_def)

lemma write_exec_append: "write_exec s (es @ fs) = write_exec (write_exec s es) fs"
  by (simp add: write_exec_def)

lemma write_exec_Nil: "write_exec s [] = s"
  by (simp add: write_exec_def)

lemma pair_inv_exec:
  assumes "pair_inv s0 A W s" and "no_wreset evs"
    and "list_all (\<lambda>w. wdata w < 256 ^ wr_byte_lanes s0) (w_beats evs)"
  shows "pair_inv s0 (A @ write_addrs (wr_byte_lanes s0) evs) (W @ w_beats evs) (write_exec s evs)"
  using assms
proof (induction evs arbitrary: s A W)
  case Nil
  then show ?case by (simp add: write_exec_Nil write_addrs_def aw_beats_def w_beats_def)
next
  case (Cons e es)
  from Cons.prems(2) have nr: "no_wreset es" by (simp add: no_wreset_def)
  show ?case
  proof (cases e)
    case (WReset b)
    with Cons.prems(2) show ?thesis by (simp add: no_wreset_def)
  next
    case (WAdmitAW aw)
    from Cons.prems(3) have fit: "list_all (\<lambda>w. wdata w < 256 ^ wr_byte_lanes s0) (w_beats es)"
      by (simp add: w_beats_def WAdmitAW)
    have "pair_inv s0 (A @ [awaddr aw div wr_byte_lanes s0 * wr_byte_lanes s0]) W
            (write_event_step s (WAdmitAW aw))"
      using Cons.prems(1) by (rule pair_inv_AW)
    from Cons.IH [OF this nr fit] show ?thesis
      by (simp add: WAdmitAW write_exec_Cons write_addrs_def aw_beats_def w_beats_def)
  next
    case (WAdmitW w)
    from Cons.prems(3) have fit: "list_all (\<lambda>w. wdata w < 256 ^ wr_byte_lanes s0) (w_beats es)"
      and w: "wdata w < 256 ^ wr_byte_lanes s0"
      by (simp_all add: w_beats_def WAdmitW)
    have "pair_inv s0 A (W @ [w]) (write_event_step s (WAdmitW w))"
      using Cons.prems(1) w by (rule pair_inv_W)
    from Cons.IH [OF this nr fit] show ?thesis
      by (simp add: WAdmitW write_exec_Cons write_addrs_def aw_beats_def w_beats_def)
  next
    case WRun
    from Cons.prems(3) have fit: "list_all (\<lambda>w. wdata w < 256 ^ wr_byte_lanes s0) (w_beats es)"
      by (simp add: w_beats_def WRun)
    have "pair_inv s0 A W (write_event_step s WRun)"
      using pair_inv_Run [OF Cons.prems(1)] by blast
    from Cons.IH [OF this nr fit] show ?thesis
      by (simp add: WRun write_exec_Cons write_addrs_def aw_beats_def w_beats_def)
  next
    case WHandshakeB
    from Cons.prems(3) have fit: "list_all (\<lambda>w. wdata w < 256 ^ wr_byte_lanes s0) (w_beats es)"
      by (simp add: w_beats_def WHandshakeB)
    have "pair_inv s0 A W (write_event_step s WHandshakeB)"
      using pair_inv_B [OF Cons.prems(1)] by blast
    from Cons.IH [OF this nr fit] show ?thesis
      by (simp add: WHandshakeB write_exec_Cons write_addrs_def aw_beats_def w_beats_def)
  qed
qed

lemma pair_inv_drain:
  assumes "pair_inv s0 A W s"
  shows "pair_inv s0 A W (write_exec s (write_drain n)) \<and>
         min (length (write_responses s) + n) (length (b_wire s0) + min (length A) (length W))
           \<le> length (write_responses (write_exec s (write_drain n)))"
  using assms
proof (induction n arbitrary: s)
  case 0
  then show ?case by (simp add: write_drain_def write_exec_Nil)
next
  case (Suc n)
  let ?s1 = "write_event_step s WHandshakeB"
  let ?s2 = "write_event_step ?s1 WRun"
  from pair_inv_B [OF Suc.prems] have i1: "pair_inv s0 A W ?s1" and e: "b_channel ?s1 = []"
    and r: "write_responses ?s1 = write_responses s" by blast+
  from pair_inv_Run [OF i1] e r have i2: "pair_inv s0 A W ?s2"
    and p: "min (Suc (length (write_responses s))) (length (b_wire s0) + min (length A) (length W))
              \<le> length (write_responses ?s2)" by auto
  from Suc.IH [OF i2] have i3: "pair_inv s0 A W (write_exec ?s2 (write_drain n))"
    and q: "min (length (write_responses ?s2) + n) (length (b_wire s0) + min (length A) (length W))
           \<le> length (write_responses (write_exec ?s2 (write_drain n)))" by blast+
  have ex: "write_exec s (write_drain (Suc n)) = write_exec ?s2 (write_drain n)"
    by (simp add: write_drain_def write_exec_Cons)
  from p q have "min (length (write_responses s) + Suc n) (length (b_wire s0) + min (length A) (length W))
           \<le> length (write_responses (write_exec ?s2 (write_drain n)))"
    by (auto simp: min_def split: if_splits)
  with i3 show ?case by (simp only: ex) 
qed

lemma wr_example_init: "AxiLiteRamWrite_init 32 32 (Some 4) 8 None = Inr wr_example"
  by (simp add: AxiLiteRamWrite_init_def Memory_init_def wr_example_def)

subsection \<open>The store accesses in closed form\<close>

lemma put_lanes_mod: "put_lanes n strb (p mod sz) data sz bs = put_lanes n strb p data sz bs"
proof (induction n)
  case 0
  show ?case by (simp add: put_lanes_def)
next
  case (Suc n)
  then show ?case by (simp add: put_lanes_Suc mod_add_left_eq)
qed

lemma full_strobe_bit: "i < bl \<Longrightarrow> bit (2 ^ bl - 1 :: nat) i"
  unfolding mask_eq_exp_minus_1 [symmetric] by (simp add: bit_mask_iff)

lemma write_access_bytes:
  assumes "0 < sz" and "length (bytes m) = sz" and "data < 256 ^ bl"
  shows "write_access sz bl addr data strb m =
           (None, \<lparr>bytes = put_lanes bl strb addr (to_bytes_le bl data) sz (bytes m),
                   pos = addr mod sz + bl\<rparr>)"
  using write_access_eq [OF assms(1,3), of addr strb m] assms(2)
  by (simp add: put_lanes_mod)

lemma read_access_bytes:
  assumes "0 < sz" and "length (bytes m) = sz"
  shows "read_access sz bl addr m =
           Inr (\<lparr>rdata = int_from_bytes (map (\<lambda>i. bytes m ! ((addr + i) mod sz)) [0..<bl]),
                 rresp = OKAY\<rparr>,
                m\<lparr>pos := addr mod sz + bl\<rparr>)"
  using read_access_eq [OF assms(1), of bl addr m] assms(2)
  by (simp add: mod_add_left_eq)

lemma put_lanes_lane:
  assumes "bl \<le> sz" and "length bs = sz" and "i < bl"
  shows "put_lanes bl strb addr (to_bytes_le bl data) sz bs ! ((addr + i) mod sz) =
           (if bit strb i then word_of_nat (data div 256 ^ i) else bs ! ((addr + i) mod sz))"
  using put_lanes_nth [OF assms, of strb addr "to_bytes_le bl data"] assms(3)
  by (simp add: to_bytes_le_nth)

subsection \<open>The read coroutine\<close>

lemma reads_done_refl: "reads_done c bs 0 P B P B"
  by (simp add: reads_done_def)

lemma reads_done_trans:
  assumes "reads_done c bs j P B P1 B1" and "reads_done c bs i P1 B1 P2 B2"
  shows "reads_done c bs (j + i) P B P2 B2"
proof -
  have "take (j + i) P = take j P @ take i (drop j P)"
    by (simp add: take_add)
  with assms show ?thesis
    by (auto simp: reads_done_def add.commute)
qed

lemma reads_done_one:
  "reads_done c bs (Suc 0) (a # X) B X (B @ [read_beat (rd_size c) (rd_byte_lanes c) bs a])"
  by (simp add: reads_done_def)

lemma read_step_AR_Nil: "ar_channel s = [] \<Longrightarrow> read_step AwaitAR s = Blocked"
  by (simp add: read_step_def)

lemma read_step_AR_Cons:
  assumes "ar_channel s = ar # rest" and "rd_ok s"
  shows "read_step AwaitAR s =
     Next AwaitR
       (s\<lparr>ar_channel := rest,
          rd_mem := (rd_mem s)\<lparr>pos := (araddr ar div rd_byte_lanes s * rd_byte_lanes s)
                                  mod rd_size s + rd_byte_lanes s\<rparr>,
          r_channel := r_channel s @
            [read_beat (rd_size s) (rd_byte_lanes s) (bytes (rd_mem s))
               (araddr ar div rd_byte_lanes s * rd_byte_lanes s)]\<rparr>)"
proof -
  from assms(2) have sz: "0 < rd_size s" and len: "length (bytes (rd_mem s)) = rd_size s"
    and bl: "0 < rd_byte_lanes s" by (simp_all add: rd_ok_def)
  from read_access_bytes [OF sz len, of "rd_byte_lanes s"
      "araddr ar div rd_byte_lanes s * rd_byte_lanes s"] assms(1) bl
  show ?thesis
    by (simp add: read_step_def align_addr_def read_beat_def)
qed

lemma read_step_R_Nil: "r_channel s = [] \<Longrightarrow> read_step AwaitR s = Next AwaitAR s"
  by (simp add: read_step_def)

lemma read_step_R_Cons: "r_channel s = r # rest \<Longrightarrow> read_step AwaitR s = Blocked"
  by (simp add: read_step_def)

lemma read_step_Next:
  assumes ok: "rd_ok s" and b: "r_inv pc s" and st: "read_step pc s = Next pc' s'"
  shows "rd_ok s' \<and> rd_frame s s' \<and> r_inv pc' s' \<and>
         (\<exists>i. reads_done s (bytes (rd_mem s)) i (pending_reads s) (r_channel s)
                 (pending_reads s') (r_channel s'))"
proof (cases pc)
  case AwaitAR
  show ?thesis
  proof (cases "ar_channel s")
    case Nil
    with AwaitAR st show ?thesis by (simp add: read_step_AR_Nil)
  next
    case (Cons ar rest)
    let ?a = "araddr ar div rd_byte_lanes s * rd_byte_lanes s"
    from read_step_AR_Cons [OF Cons ok] st AwaitAR
    have pc': "pc' = AwaitR"
      and s': "s' = s\<lparr>ar_channel := rest,
          rd_mem := (rd_mem s)\<lparr>pos := ?a mod rd_size s + rd_byte_lanes s\<rparr>,
          r_channel := r_channel s @
            [read_beat (rd_size s) (rd_byte_lanes s) (bytes (rd_mem s)) ?a]\<rparr>" by simp_all
    have "pending_reads s = ?a # pending_reads s'"
      by (simp add: s' Cons pending_reads_def)
    moreover have "r_channel s' = r_channel s @
            [read_beat (rd_size s) (rd_byte_lanes s) (bytes (rd_mem s)) ?a]"
      by (simp add: s')
    ultimately have "reads_done s (bytes (rd_mem s)) (Suc 0) (pending_reads s) (r_channel s)
                 (pending_reads s') (r_channel s')"
      by (simp add: reads_done_one)
    moreover have "rd_ok s'" using ok by (simp add: s' rd_ok_def)
    moreover have "rd_frame s s'" by (simp add: s' rd_frame_def)
    moreover have "r_inv pc' s'" using b by (simp add: s' pc' AwaitAR r_inv_def)
    ultimately show ?thesis by blast
  qed
next
  case AwaitR
  show ?thesis
  proof (cases "r_channel s")
    case Nil
    from read_step_R_Nil [OF Nil] st AwaitR have pc': "pc' = AwaitAR" and s': "s' = s"
      by simp_all
    have "reads_done s (bytes (rd_mem s)) 0 (pending_reads s) (r_channel s)
                 (pending_reads s') (r_channel s')"
      by (simp add: s' reads_done_refl)
    moreover have "rd_frame s s'" by (simp add: s' rd_frame_def)
    moreover have "r_inv pc' s'" using Nil by (simp add: s' pc' r_inv_def)
    ultimately show ?thesis using ok s' by blast
  next
    case (Cons r rest)
    with AwaitR st show ?thesis by (simp add: read_step_R_Cons)
  qed
qed

lemma read_step_not_Raised:
  assumes ok: "rd_ok s"
  shows "read_step pc s \<noteq> Raised e s'"
proof (cases pc)
  case AwaitAR
  show ?thesis
  proof (cases "ar_channel s")
    case Nil
    with AwaitAR show ?thesis by (simp add: read_step_AR_Nil)
  next
    case (Cons ar rest)
    from read_step_AR_Cons [OF Cons ok] AwaitAR show ?thesis by simp
  qed
next
  case AwaitR
  then show ?thesis
    by (cases "r_channel s") (simp_all add: read_step_R_Nil read_step_R_Cons)
qed

lemma read_step_Blocked:
  assumes "read_step pc s = Blocked" and "rd_ok s"
  shows "pending_reads s = [] \<or> (pc = AwaitR \<and> r_channel s \<noteq> [])"
proof (cases pc)
  case AwaitAR
  show ?thesis
  proof (cases "ar_channel s")
    case Nil
    then show ?thesis by (simp add: pending_reads_def)
  next
    case (Cons ar rest)
    from read_step_AR_Cons [OF Cons assms(2)] AwaitAR assms(1) show ?thesis by simp
  qed
next
  case AwaitR
  with assms(1) show ?thesis
    by (cases "r_channel s") (simp_all add: read_step_R_Nil)
qed

lemma read_run_rule:
  assumes step: "\<And>pc s pc' s'. I pc s \<Longrightarrow> read_step pc s = Next pc' s' \<Longrightarrow> I pc' s'"
    and safe: "\<And>pc s e s'. I pc s \<Longrightarrow> read_step pc s \<noteq> Raised e s'"
    and start: "I pc s"
  shows "\<exists>pc' s'. read_run pc s = (Some pc', s') \<and> I pc' s' \<and> read_step pc' s' = Blocked"
  using start
proof (induction pc s rule: read_run.induct)
  case (1 pc s)
  show ?case
  proof (cases "read_step pc s")
    case Blocked
    then have "read_run pc s = (Some pc, s)"
      by (subst read_run.simps) simp
    with "1.prems" Blocked show ?thesis by blast
  next
    case (Next pc1 s1)
    from "1.prems" Next have "I pc1 s1" by (rule step)
    with Next have "\<exists>pc' s'. read_run pc1 s1 = (Some pc', s') \<and> I pc' s' \<and> read_step pc' s' = Blocked"
      by (rule "1.IH")
    moreover from Next have "read_run pc s = read_run pc1 s1"
      by (subst read_run.simps) simp
    ultimately show ?thesis by simp
  next
    case (Raised e s1)
    with safe [OF "1.prems"] show ?thesis by blast
  qed
qed

lemma reads_done_cfg:
  "rd_size c' = rd_size c \<Longrightarrow> rd_byte_lanes c' = rd_byte_lanes c \<Longrightarrow>
   reads_done c' bs j P B P' B' = reads_done c bs j P B P' B'"
  by (simp add: reads_done_def)

lemma rd_frame_trans: "rd_frame a b \<Longrightarrow> rd_frame b c \<Longrightarrow> rd_frame a c"
  by (simp add: rd_frame_def)

lemma read_run_inv_step:
  assumes "read_run_inv pc0 s0 pc s" and "read_step pc s = Next pc' s'"
  shows "read_run_inv pc0 s0 pc' s'"
proof -
  from assms(1) have ok: "rd_ok s" and fr: "rd_frame s0 s" and b: "r_inv pc s"
    by (simp_all add: read_run_inv_def)
  from assms(1) obtain j where
    j: "reads_done s0 (bytes (rd_mem s0)) j (pending_reads s0) (r_channel s0)
              (pending_reads s) (r_channel s)"
    unfolding read_run_inv_def by blast
  from read_step_Next [OF ok b assms(2)]
  obtain i where ok': "rd_ok s'" and fr': "rd_frame s s'" and b': "r_inv pc' s'"
    and i: "reads_done s (bytes (rd_mem s)) i (pending_reads s) (r_channel s)
                 (pending_reads s') (r_channel s')"
    by blast
  from fr have "rd_size s = rd_size s0" "rd_byte_lanes s = rd_byte_lanes s0"
    "bytes (rd_mem s) = bytes (rd_mem s0)" by (simp_all add: rd_frame_def)
  with i have "reads_done s0 (bytes (rd_mem s0)) i (pending_reads s) (r_channel s)
                 (pending_reads s') (r_channel s')"
    by (simp add: reads_done_def)
  with j have "reads_done s0 (bytes (rd_mem s0)) (j + i) (pending_reads s0) (r_channel s0)
                 (pending_reads s') (r_channel s')"
    by (rule reads_done_trans)
  moreover from fr fr' have "rd_frame s0 s'" by (rule rd_frame_trans)
  ultimately show ?thesis using ok' b' unfolding read_run_inv_def by blast
qed

lemma read_run_inv_safe: "read_run_inv pc0 s0 pc s \<Longrightarrow> read_step pc s \<noteq> Raised e s'"
  by (simp add: read_run_inv_def read_step_not_Raised)

lemma read_run_inv_start:
  assumes "rd_ok s" and "r_inv pc s"
  shows "read_run_inv pc s pc s"
proof -
  have "\<exists>j. reads_done s (bytes (rd_mem s)) j (pending_reads s) (r_channel s)
              (pending_reads s) (r_channel s)"
    by (rule exI [of _ 0]) (rule reads_done_refl)
  with assms show ?thesis by (simp add: read_run_inv_def rd_frame_def)
qed

lemma read_run_reads:
  assumes "rd_ok s" and "r_inv pc s"
  shows "\<exists>pc' s'. read_run pc s = (Some pc', s') \<and> read_run_inv pc s pc' s' \<and>
           read_step pc' s' = Blocked"
proof (rule read_run_rule [where I = "read_run_inv pc s"])
  show "read_run_inv pc s pc s" using assms by (rule read_run_inv_start)
next
  fix p t p' t' assume "read_run_inv pc s p t" "read_step p t = Next p' t'"
  then show "read_run_inv pc s p' t'" by (rule read_run_inv_step)
next
  fix p t e t' assume "read_run_inv pc s p t"
  then show "read_step p t \<noteq> Raised e t'" by (rule read_run_inv_safe)
qed

subsection \<open>The read engine over a sequence of events\<close>

lemma reads_done_snoc:
  "reads_done c bs k A B P B' \<Longrightarrow> reads_done c bs k (A @ [x]) B (P @ [x]) B'"
  by (simp add: reads_done_def)

lemma reads_done_prefix:
  "reads_done c bs j P B P' B' \<Longrightarrow> reads_done c bs j P (X @ B) P' (X @ B')"
  by (simp add: reads_done_def)

lemma read_inv_start:
  assumes "read_idle s0" and "0 < rd_byte_lanes s0" and "0 < rd_size s0"
    and "length (bytes (rd_mem s0)) = rd_size s0"
  shows "read_inv s0 [] (read_handle_reset False s0)"
proof -
  let ?s = "read_handle_reset False s0"
  from assms(1) have s: "?s = s0\<lparr>process_read_cr := Some (rd_fresh s0),
                      rd_tasks := [(rd_fresh s0, AwaitAR)],
                      rd_fresh := Suc (rd_fresh s0)\<rparr>"
    by (simp add: read_handle_reset_def read_idle_def)
  have "reads_done s0 (bytes (rd_mem s0)) 0 [] (r_wire s0) (pending_reads ?s) (read_responses ?s)"
    using assms(1) by (simp add: s reads_done_def pending_reads_def read_idle_def read_responses_def)
  moreover have "r_inv AwaitAR ?s" using assms(1) by (simp add: s r_inv_def read_idle_def)
  moreover have "rd_tasks ?s = [(rd_fresh s0, AwaitAR)]" by (simp add: s)
  moreover have "rd_ok ?s" using assms by (simp add: s rd_ok_def)
  moreover have "rd_size ?s = rd_size s0" "rd_byte_lanes ?s = rd_byte_lanes s0"
    "bytes (rd_mem ?s) = bytes (rd_mem s0)" by (simp_all add: s)
  ultimately show ?thesis unfolding read_inv_def by blast
qed

lemma read_inv_AR:
  assumes "read_inv s0 A s"
  shows "read_inv s0 (A @ [araddr ar div rd_byte_lanes s0 * rd_byte_lanes s0])
           (read_event_step s (RAdmitAR ar))"
proof -
  let ?s = "s\<lparr>ar_channel := ar_channel s @ [ar]\<rparr>"
  let ?x = "araddr ar div rd_byte_lanes s0 * rd_byte_lanes s0"
  from assms obtain h pc k where t: "rd_tasks s = [(h, pc)]" and b: "r_inv pc s"
    and k: "reads_done s0 (bytes (rd_mem s0)) k A (r_wire s0) (pending_reads s) (read_responses s)"
    and bl: "rd_byte_lanes s = rd_byte_lanes s0"
    unfolding read_inv_def by blast
  have "pending_reads ?s = pending_reads s @ [?x]"
    by (simp add: pending_reads_def bl)
  with reads_done_snoc [OF k, of ?x]
  have "reads_done s0 (bytes (rd_mem s0)) k (A @ [?x]) (r_wire s0)
          (pending_reads ?s) (read_responses ?s)"
    by (simp add: read_responses_def)
  moreover have "r_inv pc ?s" using b by (simp add: r_inv_def)
  moreover have "rd_tasks ?s = [(h, pc)]" using t by simp
  moreover have "rd_ok ?s \<and> rd_size ?s = rd_size s0 \<and> rd_byte_lanes ?s = rd_byte_lanes s0 \<and>
    bytes (rd_mem ?s) = bytes (rd_mem s0)" using assms by (auto simp: read_inv_def rd_ok_def)
  ultimately have "read_inv s0 (A @ [?x]) ?s" unfolding read_inv_def by blast
  then show ?thesis by simp
qed

lemma read_inv_R:
  assumes "read_inv s0 A s"
  shows "read_inv s0 A (read_event_step s RHandshakeR) \<and>
         r_channel (read_event_step s RHandshakeR) = [] \<and>
         read_responses (read_event_step s RHandshakeR) = read_responses s"
proof (cases "r_channel s")
  case Nil
  with assms show ?thesis by simp
next
  case (Cons x rest)
  let ?s = "s\<lparr>r_channel := rest, r_wire := r_wire s @ [x]\<rparr>"
  from assms obtain h pc k where t: "rd_tasks s = [(h, pc)]" and b: "r_inv pc s"
    and k: "reads_done s0 (bytes (rd_mem s0)) k A (r_wire s0) (pending_reads s) (read_responses s)"
    unfolding read_inv_def by blast
  from b Cons have rest: "rest = []" by (cases "pc = AwaitR") (simp_all add: r_inv_def)
  have r: "read_responses ?s = read_responses s" by (simp add: read_responses_def Cons)
  have "pending_reads ?s = pending_reads s" by (simp add: pending_reads_def)
  with k r have "reads_done s0 (bytes (rd_mem s0)) k A (r_wire s0)
          (pending_reads ?s) (read_responses ?s)"
    by simp
  moreover have "r_inv pc ?s" using b rest by (simp add: r_inv_def)
  moreover have "rd_tasks ?s = [(h, pc)]" using t by simp
  moreover have "rd_ok ?s \<and> rd_size ?s = rd_size s0 \<and> rd_byte_lanes ?s = rd_byte_lanes s0 \<and>
    bytes (rd_mem ?s) = bytes (rd_mem s0)" using assms by (auto simp: read_inv_def rd_ok_def)
  ultimately have "read_inv s0 A ?s" unfolding read_inv_def by blast
  with Cons rest r show ?thesis by simp
qed

lemma read_inv_count:
  assumes "read_inv s0 A s"
  shows "\<exists>k. k \<le> length A \<and>
             read_responses s = r_wire s0 @
               map (read_beat (rd_size s0) (rd_byte_lanes s0) (bytes (rd_mem s0))) (take k A) \<and>
             bytes (rd_mem s) = bytes (rd_mem s0)"
  using assms unfolding read_inv_def reads_done_def by blast

lemma read_inv_Run:
  assumes inv: "read_inv s0 A s"
  shows "read_inv s0 A (read_event_step s RRun) \<and>
         (r_channel s = [] \<longrightarrow>
            min (Suc (length (read_responses s))) (length (r_wire s0) + length A)
              \<le> length (read_responses (read_event_step s RRun)))"
proof -
  from inv obtain h pc k where t: "rd_tasks s = [(h, pc)]" and b: "r_inv pc s"
    and k: "reads_done s0 (bytes (rd_mem s0)) k A (r_wire s0) (pending_reads s) (read_responses s)"
    unfolding read_inv_def by blast
  from inv have ok: "rd_ok s" and cfg: "rd_size s = rd_size s0"
    "rd_byte_lanes s = rd_byte_lanes s0" and by0: "bytes (rd_mem s) = bytes (rd_mem s0)"
    by (simp_all add: read_inv_def)
  from read_run_reads [OF ok b] obtain pc' s1 where
    run: "read_run pc s = (Some pc', s1)" and ri: "read_run_inv pc s pc' s1"
    and bl: "read_step pc' s1 = Blocked" by blast
  let ?s = "s1\<lparr>rd_tasks := [(h, pc')]\<rparr>"
  have ev: "read_event_step s RRun = ?s" by (simp add: t run)
  from ri have ok1: "rd_ok s1" and fr: "rd_frame s s1" and b1: "r_inv pc' s1"
    by (simp_all add: read_run_inv_def)
  from ri obtain j where
    j: "reads_done s (bytes (rd_mem s)) j (pending_reads s) (r_channel s)
              (pending_reads s1) (r_channel s1)"
    unfolding read_run_inv_def by blast
  have w1: "r_wire s1 = r_wire s" using fr by (simp add: rd_frame_def)
  from reads_done_prefix [OF j, of "r_wire s"]
  have "reads_done s (bytes (rd_mem s)) j (pending_reads s) (read_responses s)
              (pending_reads s1) (read_responses s1)"
    by (simp add: w1 read_responses_def)
  then have "reads_done s0 (bytes (rd_mem s0)) j (pending_reads s) (read_responses s)
              (pending_reads s1) (read_responses s1)"
    by (simp add: reads_done_def cfg by0)
  with k have kj: "reads_done s0 (bytes (rd_mem s0)) (k + j) A (r_wire s0)
              (pending_reads s1) (read_responses s1)"
    by (rule reads_done_trans)
  have same: "pending_reads ?s = pending_reads s1" "read_responses ?s = read_responses s1"
    by (simp_all add: pending_reads_def read_responses_def)
  have "reads_done s0 (bytes (rd_mem s0)) (k + j) A (r_wire s0)
              (pending_reads ?s) (read_responses ?s)"
    using kj by (simp only: same)
  moreover have "r_inv pc' ?s" using b1 by (simp add: r_inv_def)
  moreover have "rd_tasks ?s = [(h, pc')]" by simp
  moreover have "rd_ok ?s \<and> rd_size ?s = rd_size s0 \<and> rd_byte_lanes ?s = rd_byte_lanes s0 \<and>
    bytes (rd_mem ?s) = bytes (rd_mem s0)"
    using ok1 fr cfg by0 by (auto simp: rd_ok_def rd_frame_def)
  ultimately have inv': "read_inv s0 A ?s" unfolding read_inv_def by blast
  have prog: "min (Suc (length (read_responses s))) (length (r_wire s0) + length A)
              \<le> length (read_responses ?s)" if e: "r_channel s = []"
  proof -
    from k have rs: "length (read_responses s) = length (r_wire s0) + k" and kA: "k \<le> length A"
      by (simp_all add: reads_done_def)
    from kj have rs1: "length (read_responses s1) = length (r_wire s0) + (k + j)"
      and pa: "pending_reads s1 = drop (k + j) A" and kjA: "k + j \<le> length A"
      by (simp_all add: reads_done_def)
    from j e have bc: "length (r_channel s1) = j" by (simp add: reads_done_def)
    show ?thesis
    proof (cases j)
      case 0
      with bc have "r_channel s1 = []" by simp
      with read_step_Blocked [OF bl ok1]
      have "pending_reads s1 = []" by blast
      with pa have "length A \<le> k + j" by simp
      then show ?thesis by (simp add: same rs1)
    next
      case (Suc j')
      then show ?thesis by (simp add: same rs rs1)
    qed
  qed
  from inv' prog show ?thesis by (simp only: ev) blast
qed

lemma read_exec_Cons: "read_exec s (e # es) = read_exec (read_event_step s e) es"
  by (simp add: read_exec_def)

lemma read_exec_append: "read_exec s (es @ fs) = read_exec (read_exec s es) fs"
  by (simp add: read_exec_def)

lemma read_exec_Nil: "read_exec s [] = s"
  by (simp add: read_exec_def)

lemma read_inv_exec:
  assumes "read_inv s0 A s" and "no_rreset evs"
  shows "read_inv s0 (A @ read_addrs (rd_byte_lanes s0) evs) (read_exec s evs)"
  using assms
proof (induction evs arbitrary: s A)
  case Nil
  then show ?case by (simp add: read_exec_Nil read_addrs_def ar_beats_def)
next
  case (Cons e es)
  from Cons.prems(2) have nr: "no_rreset es" by (simp add: no_rreset_def)
  show ?case
  proof (cases e)
    case (RReset b)
    with Cons.prems(2) show ?thesis by (simp add: no_rreset_def)
  next
    case (RAdmitAR ar)
    have "read_inv s0 (A @ [araddr ar div rd_byte_lanes s0 * rd_byte_lanes s0])
            (read_event_step s (RAdmitAR ar))"
      using Cons.prems(1) by (rule read_inv_AR)
    from Cons.IH [OF this nr] show ?thesis
      by (simp add: RAdmitAR read_exec_Cons read_addrs_def ar_beats_def)
  next
    case RRun
    have "read_inv s0 A (read_event_step s RRun)"
      using read_inv_Run [OF Cons.prems(1)] by blast
    from Cons.IH [OF this nr] show ?thesis
      by (simp add: RRun read_exec_Cons read_addrs_def ar_beats_def)
  next
    case RHandshakeR
    have "read_inv s0 A (read_event_step s RHandshakeR)"
      using read_inv_R [OF Cons.prems(1)] by blast
    from Cons.IH [OF this nr] show ?thesis
      by (simp add: RHandshakeR read_exec_Cons read_addrs_def ar_beats_def)
  qed
qed

lemma read_inv_drain:
  assumes "read_inv s0 A s"
  shows "read_inv s0 A (read_exec s (read_drain n)) \<and>
         min (length (read_responses s) + n) (length (r_wire s0) + length A)
           \<le> length (read_responses (read_exec s (read_drain n)))"
  using assms
proof (induction n arbitrary: s)
  case 0
  then show ?case by (simp add: read_drain_def read_exec_Nil)
next
  case (Suc n)
  let ?s1 = "read_event_step s RHandshakeR"
  let ?s2 = "read_event_step ?s1 RRun"
  from read_inv_R [OF Suc.prems] have i1: "read_inv s0 A ?s1" and e: "r_channel ?s1 = []"
    and r: "read_responses ?s1 = read_responses s" by blast+
  from read_inv_Run [OF i1] e r have i2: "read_inv s0 A ?s2"
    and p: "min (Suc (length (read_responses s))) (length (r_wire s0) + length A)
              \<le> length (read_responses ?s2)" by auto
  from Suc.IH [OF i2] have i3: "read_inv s0 A (read_exec ?s2 (read_drain n))"
    and q: "min (length (read_responses ?s2) + n) (length (r_wire s0) + length A)
           \<le> length (read_responses (read_exec ?s2 (read_drain n)))" by blast+
  have ex: "read_exec s (read_drain (Suc n)) = read_exec ?s2 (read_drain n)"
    by (simp add: read_drain_def read_exec_Cons)
  from p q have "min (length (read_responses s) + Suc n) (length (r_wire s0) + length A)
           \<le> length (read_responses (read_exec ?s2 (read_drain n)))"
    by (auto simp: min_def split: if_splits)
  with i3 show ?case by (simp only: ex)
qed

lemma rd_example_init:
  "AxiLiteRamRead_init 32 32 1024 (Some \<lparr>bytes = [1, 2, 3, 4, 5, 6, 7, 8], pos = 0\<rparr>) = Inr rd_example"
  by (simp add: AxiLiteRamRead_init_def Memory_init_def rd_example_def)

subsection \<open>Construction\<close>

lemma byte_aligned_iff: "(w div 8 * 8 = w) = (8 dvd (w::nat))"
proof
  assume "w div 8 * 8 = w"
  then have "w = 8 * (w div 8)" by simp
  then show "8 dvd w" by (rule dvdI)
next
  assume "8 dvd w"
  then show "w div 8 * 8 = w" by simp
qed

lemma write_init_bad:
  "\<not> 8 dvd wl \<or> sl \<noteq> wl div 8 \<Longrightarrow>
   AxiLiteRamWrite_init al wl (Some sl) sz mem = Inl AssertionError"
  by (auto simp: AxiLiteRamWrite_init_def Let_def split_def byte_aligned_iff)

lemma write_init_good:
  "8 dvd wl \<Longrightarrow> \<exists>e. AxiLiteRamWrite_init al wl (Some (wl div 8)) sz mem = Inr e"
  by (simp add: AxiLiteRamWrite_init_def Let_def split_def byte_aligned_iff)

lemma read_init_bad:
  "\<not> 8 dvd rl \<Longrightarrow> AxiLiteRamRead_init al rl sz mem = Inl AssertionError"
  by (simp add: AxiLiteRamRead_init_def Let_def split_def byte_aligned_iff)

lemma read_init_good:
  "8 dvd rl \<Longrightarrow> \<exists>e. AxiLiteRamRead_init al rl sz mem = Inr e"
  by (simp add: AxiLiteRamRead_init_def Let_def split_def byte_aligned_iff)

lemma ram_init_bad:
  assumes "\<not> 8 dvd wl \<or> sl \<noteq> wl div 8 \<or> \<not> 8 dvd rl"
  shows "AxiLiteRam_init al wl (Some sl) al' rl sz mem = Inl AssertionError"
proof (cases "\<not> 8 dvd wl \<or> sl \<noteq> wl div 8")
  case True
  then show ?thesis by (simp add: AxiLiteRam_init_def split_def write_init_bad)
next
  case False
  with assms have r: "\<not> 8 dvd rl" by simp
  from False obtain e where
    "AxiLiteRamWrite_init al wl (Some sl) 1024 (Some (fst (Memory_init sz mem))) = Inr e"
    using write_init_good [of wl al 1024 "Some (fst (Memory_init sz mem))"] by auto
  then show ?thesis by (simp add: AxiLiteRam_init_def split_def read_init_bad [OF r])
qed

lemma ram_init_good:
  assumes "8 dvd wl" and "8 dvd rl"
  shows "\<exists>e. AxiLiteRam_init al wl (Some (wl div 8)) al' rl sz mem = Inr e"
proof -
  from assms(1) obtain w where
    "AxiLiteRamWrite_init al wl (Some (wl div 8)) 1024 (Some (fst (Memory_init sz mem))) = Inr w"
    using write_init_good by blast
  moreover from assms(2) obtain r where
    "AxiLiteRamRead_init al' rl 1024 (Some (fst (Memory_init sz mem))) = Inr r"
    using read_init_good by blast
  ultimately show ?thesis by (simp add: AxiLiteRam_init_def split_def Let_def)
qed

subsection \<open>Coroutines and reset: the write engine\<close>

lemma write_step_mono:
  "write_step pc s = Next pc' s' \<Longrightarrow> wr_mono pc s (Some pc') s'"
  "write_step pc s = Raised e s' \<Longrightarrow> wr_mono pc s None s'"
  by (auto simp: write_step_def wr_mono_def wr_frame_def wr_load1_def wr_load2_def Let_def
        awaitw_def
       split: write_pc.splits list.splits sum.splits option.splits prod.splits)

lemma wr_mono_refl: "wr_mono pc s (Some pc) s"
  by (simp add: wr_mono_def wr_frame_def)

lemma wr_mono_trans:
  "wr_mono pc0 s0 (Some pc) s \<Longrightarrow> wr_mono pc s pco s' \<Longrightarrow> wr_mono pc0 s0 pco s'"
  by (auto simp: wr_mono_def wr_frame_def)

lemma write_run_mono: "wr_mono pc s (fst (write_run pc s)) (snd (write_run pc s))"
proof (induction pc s rule: write_run.induct)
  case (1 pc s)
  show ?case
  proof (cases "write_step pc s")
    case Blocked
    then have "write_run pc s = (Some pc, s)" by (subst write_run.simps) simp
    then show ?thesis by (simp add: wr_mono_refl)
  next
    case (Next pc1 s1)
    then have r: "write_run pc s = write_run pc1 s1" by (subst write_run.simps) simp
    from Next have "wr_mono pc s (Some pc1) s1" by (rule write_step_mono)
    moreover from Next have "wr_mono pc1 s1 (fst (write_run pc1 s1)) (snd (write_run pc1 s1))"
      by (rule "1.IH")
    ultimately show ?thesis unfolding r by (rule wr_mono_trans)
  next
    case (Raised e s1)
    then have "write_run pc s = (None, s1)" by (subst write_run.simps) simp
    with Raised show ?thesis by (simp add: write_step_mono)
  qed
qed

lemma write_sched_mono:
  "wr_sched_mono ts s (fst (write_sched ts s)) (snd (write_sched ts s))"
proof (induction ts arbitrary: s)
  case Nil
  show ?case by (simp add: wr_sched_mono_def wr_frame_def)
next
  case (Cons t ts)
  obtain h pc where t: "t = (h, pc)" by (cases t)
  obtain pco s1 where run: "write_run pc s = (pco, s1)" by (cases "write_run pc s")
  from write_run_mono [of pc s] run have m: "wr_mono pc s pco s1" by simp
  from Cons.IH [of s1]
  have ih: "wr_sched_mono ts s1 (fst (write_sched ts s1)) (snd (write_sched ts s1))" .
  obtain ts' s2 where sch: "write_sched ts s1 = (ts', s2)" by (cases "write_sched ts s1")
  show ?case
  proof (cases pco)
    case None
    with t run sch have "write_sched (t # ts) s = (ts', s2)" by simp
    with m ih sch None show ?thesis
      by (auto simp: wr_sched_mono_def wr_mono_def wr_frame_def wr_load1_def wr_load2_def
          awaitw_count_def t)
  next
    case (Some pc')
    with t run sch have "write_sched (t # ts) s = ((h, pc') # ts', s2)" by simp
    with m ih sch Some show ?thesis
      by (auto simp: wr_sched_mono_def wr_mono_def wr_frame_def wr_load1_def wr_load2_def
          awaitw_count_def t)
  qed
qed

lemma write_task_inv_step: "write_task_inv s \<Longrightarrow> write_task_inv (write_event_step s e)"
proof (cases e)
  case (WReset b)
  assume "write_task_inv s"
  then show ?thesis
    by (cases "wr_tasks s"; cases "process_write_cr s")
       (auto simp: WReset write_task_inv_def write_handle_reset_def Let_def)
next
  case (WAdmitAW aw)
  assume "write_task_inv s"
  then show ?thesis by (simp add: WAdmitAW write_task_inv_def)
next
  case (WAdmitW w)
  assume "write_task_inv s"
  then show ?thesis by (simp add: WAdmitW write_task_inv_def)
next
  case WRun
  assume inv: "write_task_inv s"
  obtain ts' s' where sch: "write_sched (wr_tasks s) s = (ts', s')"
    by (cases "write_sched (wr_tasks s) s")
  from write_sched_mono [of "wr_tasks s" s] sch
  have "wr_frame s s'" "length ts' \<le> length (wr_tasks s)"
    "set (map fst ts') \<subseteq> set (map fst (wr_tasks s))"
    by (simp_all add: wr_sched_mono_def)
  with inv have "write_task_inv (s'\<lparr>wr_tasks := ts'\<rparr>)"
    by (auto simp: write_task_inv_def wr_frame_def)
  with sch show ?thesis by (simp add: WRun)
next
  case WHandshakeB
  assume "write_task_inv s"
  then show ?thesis by (cases "b_channel s") (simp_all add: WHandshakeB write_task_inv_def)
qed

lemma write_task_inv_exec: "write_task_inv s \<Longrightarrow> write_task_inv (write_exec s evs)"
proof (induction evs arbitrary: s)
  case Nil
  then show ?case by (simp add: write_exec_Nil)
next
  case (Cons e es)
  from Cons.prems have "write_task_inv (write_event_step s e)" by (rule write_task_inv_step)
  then have "write_task_inv (write_exec (write_event_step s e) es)" by (rule Cons.IH)
  then show ?case by (simp add: write_exec_Cons)
qed

lemma wr_bound_step:
  assumes "wr_bound L a w s"
  shows "wr_bound L (a + length (aw_beats [e])) (w + length (w_beats [e])) (write_event_step s e)"
proof (cases e)
  case (WReset b)
  have "awaitw_count (filter P ts) \<le> awaitw_count ts" for P ts
    by (induction ts) (simp_all add: awaitw_count_def)
  from this [of "\<lambda>t. fst t \<noteq> the (process_write_cr s)" "wr_tasks s"] assms show ?thesis
    by (cases b; cases "process_write_cr s")
       (auto simp: WReset wr_bound_def write_handle_reset_def Let_def aw_beats_def w_beats_def
          awaitw_count_def awaitw_def)
next
  case (WAdmitAW aw)
  with assms show ?thesis by (simp add: wr_bound_def aw_beats_def w_beats_def)
next
  case (WAdmitW x)
  with assms show ?thesis by (simp add: wr_bound_def aw_beats_def w_beats_def)
next
  case WRun
  obtain ts' s' where sch: "write_sched (wr_tasks s) s = (ts', s')"
    by (cases "write_sched (wr_tasks s) s")
  from write_sched_mono [of "wr_tasks s" s] sch
  have "wr_sched_mono (wr_tasks s) s ts' s'" by simp
  with assms have "wr_bound L a w (s'\<lparr>wr_tasks := ts'\<rparr>)"
    by (auto simp: wr_bound_def wr_sched_mono_def wr_frame_def wr_load2_def)
  with sch show ?thesis by (simp add: WRun aw_beats_def w_beats_def)
next
  case WHandshakeB
  with assms show ?thesis
    by (cases "b_channel s") (simp_all add: wr_bound_def aw_beats_def w_beats_def)
qed

lemma aw_beats_Cons: "aw_beats (e # es) = aw_beats [e] @ aw_beats es"
  by (simp add: aw_beats_def)

lemma w_beats_Cons: "w_beats (e # es) = w_beats [e] @ w_beats es"
  by (simp add: w_beats_def)

lemma wr_bound_exec:
  "wr_bound L a w s \<Longrightarrow>
   wr_bound L (a + length (aw_beats evs)) (w + length (w_beats evs)) (write_exec s evs)"
proof (induction evs arbitrary: s a w)
  case Nil
  then show ?case by (simp add: write_exec_Nil aw_beats_def w_beats_def)
next
  case (Cons e es)
  from Cons.prems
  have "wr_bound L (a + length (aw_beats [e])) (w + length (w_beats [e])) (write_event_step s e)"
    by (rule wr_bound_step)
  then have "wr_bound L (a + length (aw_beats [e]) + length (aw_beats es))
               (w + length (w_beats [e]) + length (w_beats es))
               (write_exec (write_event_step s e) es)"
    by (rule Cons.IH)
  then show ?case
    by (simp add: write_exec_Cons aw_beats_Cons [of e es] w_beats_Cons [of e es] add.assoc)
qed

lemma write_reset_assert:
  assumes "write_task_inv s"
  shows "write_handle_reset True s =
           s\<lparr>wr_tasks := [], process_write_cr := None,
             aw_channel := [], w_channel := [], b_channel := []\<rparr>"
proof (cases "process_write_cr s")
  case None
  with assms have "wr_tasks s = []" by (cases "wr_tasks s") (auto simp: write_task_inv_def)
  with None show ?thesis by (simp add: write_handle_reset_def)
next
  case (Some h)
  with assms have "filter (\<lambda>t. fst t \<noteq> h) (wr_tasks s) = []"
    by (auto simp: write_task_inv_def filter_empty_conv)
  with Some show ?thesis by (simp add: write_handle_reset_def)
qed

lemma write_post_reset_bound:
  assumes "write_task_inv s"
  shows "length (b_wire (write_exec (write_handle_reset True s) evs))
           \<le> length (b_wire s) + min (length (aw_beats evs)) (length (w_beats evs))"
proof -
  have "wr_bound (length (b_wire s)) 0 0 (write_handle_reset True s)"
    by (simp add: write_reset_assert [OF assms] wr_bound_def awaitw_count_def)
  from wr_bound_exec [OF this, of evs] show ?thesis
    by (auto simp: wr_bound_def min_def)
qed

subsection \<open>Coroutines and reset: the read engine\<close>

lemma read_step_mono:
  "read_step pc s = Next pc' s' \<Longrightarrow> rd_mono s s'"
  "read_step pc s = Raised e s' \<Longrightarrow> rd_mono s s'"
  by (auto simp: read_step_def rd_mono_def rd_frame_def Let_def read_access_def mem_read_def
        mem_seek_def
       split: read_pc.splits list.splits sum.splits option.splits prod.splits if_splits)

lemma rd_mono_refl: "rd_mono s s"
  by (simp add: rd_mono_def rd_frame_def)

lemma rd_mono_trans: "rd_mono a b \<Longrightarrow> rd_mono b c \<Longrightarrow> rd_mono a c"
  by (auto simp: rd_mono_def rd_frame_def)

lemma read_run_mono: "rd_mono s (snd (read_run pc s))"
proof (induction pc s rule: read_run.induct)
  case (1 pc s)
  show ?case
  proof (cases "read_step pc s")
    case Blocked
    then have "read_run pc s = (Some pc, s)" by (subst read_run.simps) simp
    then show ?thesis by (simp add: rd_mono_refl)
  next
    case (Next pc1 s1)
    then have r: "read_run pc s = read_run pc1 s1" by (subst read_run.simps) simp
    from Next have "rd_mono s s1" by (rule read_step_mono)
    moreover from Next have "rd_mono s1 (snd (read_run pc1 s1))"
      by (rule "1.IH")
    ultimately show ?thesis unfolding r by (rule rd_mono_trans)
  next
    case (Raised e s1)
    then have "read_run pc s = (None, s1)" by (subst read_run.simps) simp
    with Raised show ?thesis by (simp add: read_step_mono)
  qed
qed

lemma read_sched_mono:
  "rd_sched_mono ts s (fst (read_sched ts s)) (snd (read_sched ts s))"
proof (induction ts arbitrary: s)
  case Nil
  show ?case by (simp add: rd_sched_mono_def rd_mono_refl)
next
  case (Cons t ts)
  obtain h pc where t: "t = (h, pc)" by (cases t)
  obtain pco s1 where run: "read_run pc s = (pco, s1)" by (cases "read_run pc s")
  from read_run_mono [of s pc] run have m: "rd_mono s s1" by simp
  from Cons.IH [of s1]
  have ih: "rd_sched_mono ts s1 (fst (read_sched ts s1)) (snd (read_sched ts s1))" .
  obtain ts' s2 where sch: "read_sched ts s1 = (ts', s2)" by (cases "read_sched ts s1")
  from ih sch have m2: "rd_mono s1 s2" and l: "length ts' \<le> length ts"
    and f: "set (map fst ts') \<subseteq> set (map fst ts)" by (simp_all add: rd_sched_mono_def)
  from m m2 have mm: "rd_mono s s2" by (rule rd_mono_trans)
  show ?case
  proof (cases pco)
    case None
    with t run sch have "read_sched (t # ts) s = (ts', s2)" by simp
    with mm l f show ?thesis by (auto simp: rd_sched_mono_def)
  next
    case (Some pc')
    with t run sch have "read_sched (t # ts) s = ((h, pc') # ts', s2)" by simp
    with mm l f show ?thesis by (auto simp: rd_sched_mono_def t)
  qed
qed

lemma read_task_inv_step: "read_task_inv s \<Longrightarrow> read_task_inv (read_event_step s e)"
proof (cases e)
  case (RReset b)
  assume "read_task_inv s"
  then show ?thesis
    by (cases "rd_tasks s"; cases "process_read_cr s")
       (auto simp: RReset read_task_inv_def read_handle_reset_def Let_def)
next
  case (RAdmitAR ar)
  assume "read_task_inv s"
  then show ?thesis by (simp add: RAdmitAR read_task_inv_def)
next
  case RRun
  assume inv: "read_task_inv s"
  obtain ts' s' where sch: "read_sched (rd_tasks s) s = (ts', s')"
    by (cases "read_sched (rd_tasks s) s")
  from read_sched_mono [of "rd_tasks s" s] sch
  have "rd_frame s s'" "length ts' \<le> length (rd_tasks s)"
    "set (map fst ts') \<subseteq> set (map fst (rd_tasks s))"
    by (simp_all add: rd_sched_mono_def rd_mono_def)
  with inv have "read_task_inv (s'\<lparr>rd_tasks := ts'\<rparr>)"
    by (auto simp: read_task_inv_def rd_frame_def)
  with sch show ?thesis by (simp add: RRun)
next
  case RHandshakeR
  assume "read_task_inv s"
  then show ?thesis by (cases "r_channel s") (simp_all add: RHandshakeR read_task_inv_def)
qed

lemma read_task_inv_exec: "read_task_inv s \<Longrightarrow> read_task_inv (read_exec s evs)"
proof (induction evs arbitrary: s)
  case Nil
  then show ?case by (simp add: read_exec_Nil)
next
  case (Cons e es)
  from Cons.prems have "read_task_inv (read_event_step s e)" by (rule read_task_inv_step)
  then have "read_task_inv (read_exec (read_event_step s e) es)" by (rule Cons.IH)
  then show ?case by (simp add: read_exec_Cons)
qed

lemma read_event_step_bytes: "bytes (rd_mem (read_event_step s e)) = bytes (rd_mem s)"
proof (cases e)
  case (RReset b)
  then show ?thesis
    by (cases "process_read_cr s") (simp_all add: read_handle_reset_def Let_def)
next
  case (RAdmitAR ar)
  then show ?thesis by simp
next
  case RRun
  obtain ts' s' where sch: "read_sched (rd_tasks s) s = (ts', s')"
    by (cases "read_sched (rd_tasks s) s")
  from read_sched_mono [of "rd_tasks s" s] sch
  have "bytes (rd_mem s') = bytes (rd_mem s)"
    by (simp add: rd_sched_mono_def rd_mono_def rd_frame_def)
  with sch show ?thesis by (simp add: RRun)
next
  case RHandshakeR
  then show ?thesis by (cases "r_channel s") simp_all
qed

lemma rd_bound_step:
  assumes "rd_bound L a s"
  shows "rd_bound L (a + length (ar_beats [e])) (read_event_step s e)"
proof (cases e)
  case (RReset b)
  with assms show ?thesis
    by (cases b; cases "process_read_cr s")
       (auto simp: rd_bound_def read_handle_reset_def Let_def ar_beats_def)
next
  case (RAdmitAR ar)
  with assms show ?thesis by (simp add: rd_bound_def ar_beats_def)
next
  case RRun
  obtain ts' s' where sch: "read_sched (rd_tasks s) s = (ts', s')"
    by (cases "read_sched (rd_tasks s) s")
  from read_sched_mono [of "rd_tasks s" s] sch
  have "rd_mono s s'" by (simp add: rd_sched_mono_def)
  with assms have "rd_bound L a (s'\<lparr>rd_tasks := ts'\<rparr>)"
    by (auto simp: rd_bound_def rd_mono_def rd_frame_def)
  with sch show ?thesis by (simp add: RRun ar_beats_def)
next
  case RHandshakeR
  with assms show ?thesis
    by (cases "r_channel s") (simp_all add: rd_bound_def ar_beats_def)
qed

lemma ar_beats_Cons: "ar_beats (e # es) = ar_beats [e] @ ar_beats es"
  by (simp add: ar_beats_def)

lemma rd_bound_exec:
  "rd_bound L a s \<Longrightarrow> rd_bound L (a + length (ar_beats evs)) (read_exec s evs)"
proof (induction evs arbitrary: s a)
  case Nil
  then show ?case by (simp add: read_exec_Nil ar_beats_def)
next
  case (Cons e es)
  from Cons.prems have "rd_bound L (a + length (ar_beats [e])) (read_event_step s e)"
    by (rule rd_bound_step)
  then have "rd_bound L (a + length (ar_beats [e]) + length (ar_beats es))
               (read_exec (read_event_step s e) es)"
    by (rule Cons.IH)
  then show ?case
    by (simp add: read_exec_Cons ar_beats_Cons [of e es] add.assoc)
qed

lemma read_reset_assert:
  assumes "read_task_inv s"
  shows "read_handle_reset True s =
           s\<lparr>rd_tasks := [], process_read_cr := None, ar_channel := [], r_channel := []\<rparr>"
proof (cases "process_read_cr s")
  case None
  with assms have "rd_tasks s = []" by (cases "rd_tasks s") (auto simp: read_task_inv_def)
  with None show ?thesis by (simp add: read_handle_reset_def)
next
  case (Some h)
  with assms have "filter (\<lambda>t. fst t \<noteq> h) (rd_tasks s) = []"
    by (auto simp: read_task_inv_def filter_empty_conv)
  with Some show ?thesis by (simp add: read_handle_reset_def)
qed

lemma read_post_reset_bound:
  assumes "read_task_inv s"
  shows "length (r_wire (read_exec (read_handle_reset True s) evs))
           \<le> length (r_wire s) + length (ar_beats evs)"
proof -
  have "rd_bound (length (r_wire s)) 0 (read_handle_reset True s)"
    by (simp add: read_reset_assert [OF assms] rd_bound_def)
  from rd_bound_exec [OF this, of evs] show ?thesis
    by (simp add: rd_bound_def)
qed

subsection \<open>Reset release and the configuration\<close>

lemma write_init_task_inv:
  "AxiLiteRamWrite_init al wl sl sz mem = Inr s0 \<Longrightarrow> write_task_inv s0 \<and> write_idle s0"
  by (auto simp: AxiLiteRamWrite_init_def Let_def split_def write_task_inv_def write_idle_def
      split: option.splits if_splits)

lemma read_init_task_inv:
  "AxiLiteRamRead_init al rl sz mem = Inr r0 \<Longrightarrow> read_task_inv r0 \<and> read_idle r0"
  by (auto simp: AxiLiteRamRead_init_def Let_def split_def read_task_inv_def read_idle_def
      split: option.splits if_splits)

lemma write_reset_deassert_running:
  "process_write_cr s \<noteq> None \<Longrightarrow> write_handle_reset False s = s"
  by (auto simp: write_handle_reset_def)

lemma write_reset_deassert_idle:
  "process_write_cr s = None \<Longrightarrow> write_task_inv s \<Longrightarrow>
   write_handle_reset False s =
     s\<lparr>process_write_cr := Some (wr_fresh s), wr_tasks := [(wr_fresh s, AwaitAW)],
       wr_fresh := Suc (wr_fresh s)\<rparr>"
  by (cases "wr_tasks s") (auto simp: write_handle_reset_def write_task_inv_def)

lemma read_reset_deassert_running:
  "process_read_cr s \<noteq> None \<Longrightarrow> read_handle_reset False s = s"
  by (auto simp: read_handle_reset_def)

lemma read_reset_deassert_idle:
  "process_read_cr s = None \<Longrightarrow> read_task_inv s \<Longrightarrow>
   read_handle_reset False s =
     s\<lparr>process_read_cr := Some (rd_fresh s), rd_tasks := [(rd_fresh s, AwaitAR)],
       rd_fresh := Suc (rd_fresh s)\<rparr>"
  by (cases "rd_tasks s") (auto simp: read_handle_reset_def read_task_inv_def)

lemma write_event_step_cfg:
  "strb_mask (write_event_step s e) = strb_mask s \<and>
   wr_byte_lanes (write_event_step s e) = wr_byte_lanes s \<and>
   wr_size (write_event_step s e) = wr_size s"
proof (cases e)
  case (WReset b)
  then show ?thesis
    by (cases "process_write_cr s") (simp_all add: write_handle_reset_def Let_def)
next
  case (WAdmitAW aw)
  then show ?thesis by simp
next
  case (WAdmitW w)
  then show ?thesis by simp
next
  case WRun
  obtain ts' s' where sch: "write_sched (wr_tasks s) s = (ts', s')"
    by (cases "write_sched (wr_tasks s) s")
  from write_sched_mono [of "wr_tasks s" s] sch
  have "wr_frame s s'" by (simp add: wr_sched_mono_def)
  with sch show ?thesis by (simp add: WRun wr_frame_def)
next
  case WHandshakeB
  then show ?thesis by (cases "b_channel s") simp_all
qed

lemma write_exec_cfg:
  "strb_mask (write_exec s evs) = strb_mask s \<and>
   wr_byte_lanes (write_exec s evs) = wr_byte_lanes s \<and>
   wr_size (write_exec s evs) = wr_size s"
proof (induction evs arbitrary: s)
  case Nil
  show ?case by (simp add: write_exec_Nil)
next
  case (Cons e es)
  from Cons.IH [of "write_event_step s e"] write_event_step_cfg [of s e]
  show ?case by (simp add: write_exec_Cons)
qed

lemma write_init_mask:
  "AxiLiteRamWrite_init al wl sl sz mem = Inr s0 \<Longrightarrow>
   strb_mask s0 = 2 ^ wr_byte_lanes s0 - 1 \<and> wr_byte_lanes s0 = wl div 8"
  by (auto simp: AxiLiteRamWrite_init_def Let_def split_def split: option.splits if_splits)

section \<open>Claims\<close>

text \<open>
  Claim C1. From a constructed, idle write engine whose reset is released, and for any
  interleaving of admitted address beats, admitted data beats, scheduler runs and response
  handshakes (no reset in between): at every moment the responses emitted so far are
  \<open>k\<close> success beats, where the store is exactly the initial store after the first
  \<open>k\<close> pairs (the \<open>i\<close>-th admitted address with the \<open>i\<close>-th admitted data beat, in
  order), and \<open>k\<close> exceeds neither the number of address beats nor the number of data
  beats admitted. Once the master has taken the responses (\<open>n\<close> rounds of handshake and
  scheduler run, \<open>n\<close> at least the number of pairs), exactly as many success beats are
  on the wire as there are pairs, and the store holds all the pairs' writes in order.
\<close>

theorem C1_write_pairing:
  assumes idle: "write_idle s0" and bl: "0 < wr_byte_lanes s0" and sz: "0 < wr_size s0"
    and nr: "no_wreset evs"
    and fit: "list_all (\<lambda>w. wdata w < 256 ^ wr_byte_lanes s0) (w_beats evs)"
  shows "(\<exists>k. k \<le> length (aw_beats evs) \<and> k \<le> length (w_beats evs) \<and>
            write_responses (write_exec s0 (WReset False # evs)) = b_wire s0 @ replicate k OKAY_beat \<and>
            wr_mem (write_exec s0 (WReset False # evs)) =
              foldl (apply_write (wr_size s0) (wr_byte_lanes s0) (strb_mask s0)) (wr_mem s0)
                (take k (zip (write_addrs (wr_byte_lanes s0) evs) (w_beats evs)))) \<and>
         (\<forall>n \<ge> min (length (aw_beats evs)) (length (w_beats evs)).
            b_wire (write_exec s0 (WReset False # evs @ write_drain n @ [WHandshakeB])) =
              b_wire s0 @ replicate (min (length (aw_beats evs)) (length (w_beats evs))) OKAY_beat \<and>
            b_channel (write_exec s0 (WReset False # evs @ write_drain n @ [WHandshakeB])) = [] \<and>
            wr_mem (write_exec s0 (WReset False # evs @ write_drain n @ [WHandshakeB])) =
              foldl (apply_write (wr_size s0) (wr_byte_lanes s0) (strb_mask s0)) (wr_mem s0)
                (zip (write_addrs (wr_byte_lanes s0) evs) (w_beats evs)))"
proof -
  let ?A = "write_addrs (wr_byte_lanes s0) evs" and ?W = "w_beats evs"
  let ?N = "min (length (aw_beats evs)) (length (w_beats evs))"
  let ?f = "apply_write (wr_size s0) (wr_byte_lanes s0) (strb_mask s0)"
  let ?s1 = "write_handle_reset False s0"
  let ?s2 = "write_exec ?s1 evs"
  have lenA: "length ?A = length (aw_beats evs)" by (simp add: write_addrs_def)
  have "pair_inv s0 [] [] ?s1" using idle bl sz by (rule pair_inv_start)
  from pair_inv_exec [OF this nr fit] have inv2: "pair_inv s0 ?A ?W ?s2" by simp
  have ex2: "write_exec s0 (WReset False # evs) = ?s2" by (simp add: write_exec_Cons)
  from pair_inv_count [OF inv2] have first:
    "\<exists>k. k \<le> length (aw_beats evs) \<and> k \<le> length (w_beats evs) \<and>
       write_responses ?s2 = b_wire s0 @ replicate k OKAY_beat \<and>
       wr_mem ?s2 = foldl ?f (wr_mem s0) (take k (zip ?A ?W))"
    by (simp add: lenA)
  have second: "b_wire (write_exec s0 (WReset False # evs @ write_drain n @ [WHandshakeB])) =
              b_wire s0 @ replicate ?N OKAY_beat \<and>
            b_channel (write_exec s0 (WReset False # evs @ write_drain n @ [WHandshakeB])) = [] \<and>
            wr_mem (write_exec s0 (WReset False # evs @ write_drain n @ [WHandshakeB])) =
              foldl ?f (wr_mem s0) (zip ?A ?W)" if n: "?N \<le> n" for n
  proof -
    let ?s3 = "write_exec ?s2 (write_drain n)"
    let ?s4 = "write_event_step ?s3 WHandshakeB"
    have ex4: "write_exec s0 (WReset False # evs @ write_drain n @ [WHandshakeB]) = ?s4"
      by (simp add: write_exec_Cons write_exec_append write_exec_Nil)
    from pair_inv_drain [OF inv2, of n] have inv3: "pair_inv s0 ?A ?W ?s3"
      and ge: "min (length (write_responses ?s2) + n) (length (b_wire s0) + min (length ?A) (length ?W))
           \<le> length (write_responses ?s3)" by blast+
    from pair_inv_count [OF inv2] have "length (b_wire s0) \<le> length (write_responses ?s2)" by auto
    with ge n have ge3: "length (b_wire s0) + ?N \<le> length (write_responses ?s3)"
      by (simp add: lenA min_def split: if_splits)
    from pair_inv_B [OF inv3] have inv4: "pair_inv s0 ?A ?W ?s4" and e4: "b_channel ?s4 = []"
      and r4: "write_responses ?s4 = write_responses ?s3" by blast+
    from pair_inv_count [OF inv4] obtain k where k: "k \<le> length ?A" "k \<le> length ?W"
      and rk: "write_responses ?s4 = b_wire s0 @ replicate k OKAY_beat"
      and mk: "wr_mem ?s4 = foldl ?f (wr_mem s0) (take k (zip ?A ?W))" by blast
    from rk r4 have "write_responses ?s3 = b_wire s0 @ replicate k OKAY_beat" by (simp only:)
    then have "length (write_responses ?s3) = length (b_wire s0) + k"
      by (simp only: length_append length_replicate)
    with ge3 have "?N \<le> k" by simp
    with k have kN: "k = ?N" by (simp add: lenA)
    have "b_wire ?s4 = write_responses ?s4" using e4 by (simp add: write_responses_def)
    with rk kN have "b_wire ?s4 = b_wire s0 @ replicate ?N OKAY_beat" by simp
    moreover from mk kN have "wr_mem ?s4 = foldl ?f (wr_mem s0) (zip ?A ?W)"
      by (simp add: lenA)
    ultimately show ?thesis using e4 by (simp only: ex4) 
  qed
  from first second show ?thesis by (simp only: ex2) blast
qed

theorem C1_write_pairing_witness:
  "write_idle wr_example \<and> 0 < wr_byte_lanes wr_example \<and> 0 < wr_size wr_example \<and>
   no_wreset [WAdmitAW \<lparr>awaddr = 5, awprot = None\<rparr>, WRun,
              WAdmitW \<lparr>wdata = 0x0A0B0C0D, wstrb = Some 3\<rparr>] \<and>
   b_wire (write_exec wr_example
          (WReset False # [WAdmitAW \<lparr>awaddr = 5, awprot = None\<rparr>, WRun,
             WAdmitW \<lparr>wdata = 0x0A0B0C0D, wstrb = Some 3\<rparr>] @ write_drain 1 @ [WHandshakeB]))
     = [OKAY_beat] \<and>
   wr_mem (write_exec wr_example
          (WReset False # [WAdmitAW \<lparr>awaddr = 5, awprot = None\<rparr>, WRun,
             WAdmitW \<lparr>wdata = 0x0A0B0C0D, wstrb = Some 3\<rparr>] @ write_drain 1 @ [WHandshakeB]))
     = \<lparr>bytes = [0, 0, 0, 0, 0x0D, 0x0C, 0, 0], pos = 8\<rparr>"
proof -
  let ?evs = "[WAdmitAW \<lparr>awaddr = 5, awprot = None\<rparr>, WRun,
              WAdmitW \<lparr>wdata = 0x0A0B0C0D, wstrb = Some 3\<rparr>]"
  have h1: "write_idle wr_example" by (simp add: write_idle_def wr_example_def)
  have h2: "0 < wr_byte_lanes wr_example" by (simp add: wr_example_def)
  have h3: "0 < wr_size wr_example" by (simp add: wr_example_def)
  have h4: "no_wreset ?evs" by (simp add: no_wreset_def)
  have h5: "list_all (\<lambda>w. wdata w < 256 ^ wr_byte_lanes wr_example) (w_beats ?evs)"
    by (simp add: w_beats_def wr_example_def)
  have n: "min (length (aw_beats ?evs)) (length (w_beats ?evs)) = 1"
    by (simp add: aw_beats_def w_beats_def)
  have z: "zip (write_addrs (wr_byte_lanes wr_example) ?evs) (w_beats ?evs)
            = [(4, \<lparr>wdata = 0x0A0B0C0D, wstrb = Some 3\<rparr>)]"
    by (simp add: write_addrs_def aw_beats_def w_beats_def wr_example_def)
  have a: "apply_write 8 4 15 \<lparr>bytes = replicate 8 0, pos = 0\<rparr>
             (4, \<lparr>wdata = 0x0A0B0C0D, wstrb = Some 3\<rparr>)
           = \<lparr>bytes = [0, 0, 0, 0, 0x0D, 0x0C, 0, 0], pos = 8\<rparr>"
    by code_simp
  from C1_write_pairing [OF h1 h2 h3 h4 h5] n
  have "b_wire (write_exec wr_example (WReset False # ?evs @ write_drain 1 @ [WHandshakeB])) =
              b_wire wr_example @ replicate 1 OKAY_beat \<and>
        wr_mem (write_exec wr_example (WReset False # ?evs @ write_drain 1 @ [WHandshakeB])) =
              foldl (apply_write (wr_size wr_example) (wr_byte_lanes wr_example) (strb_mask wr_example))
                (wr_mem wr_example) (zip (write_addrs (wr_byte_lanes wr_example) ?evs) (w_beats ?evs))"
    by simp
  then have "b_wire (write_exec wr_example (WReset False # ?evs @ write_drain 1 @ [WHandshakeB])) = [OKAY_beat] \<and>
        wr_mem (write_exec wr_example (WReset False # ?evs @ write_drain 1 @ [WHandshakeB])) =
           \<lparr>bytes = [0, 0, 0, 0, 0x0D, 0x0C, 0, 0], pos = 8\<rparr>"
    unfolding z by (simp add: wr_example_def a)
  with h1 h2 h3 h4 show ?thesis by simp
qed

text \<open>
  Claim C2, amended. A write whose data fits the data width never raises. If the store
  holds at least \<open>byte_lanes\<close> bytes, then after the write the offset of every lane \<open>i\<close>
  holds byte \<open>i\<close> of the data (little-endian) if bit \<open>i\<close> of the strobe is set, and its
  old value otherwise. For a store of any size, an offset that no strobed lane maps to
  keeps its value, the store keeps its length, and a write with strobe 0 leaves the
  store's bytes unchanged. As stated, for every store, the claim fails: in a store shorter
  than \<open>byte_lanes\<close> two lanes share an offset, and the offset of a masked lane is
  overwritten by the byte of a strobed one.
\<close>

theorem C2_strobe_masking:
  assumes "0 < sz" and "length (bytes m) = sz" and "data < 256 ^ bl"
  shows "fst (write_access sz bl addr data strb m) = None \<and>
         length (bytes (snd (write_access sz bl addr data strb m))) = sz \<and>
         (bl \<le> sz \<longrightarrow>
            (\<forall>i<bl. bytes (snd (write_access sz bl addr data strb m)) ! ((addr + i) mod sz) =
               (if bit strb i then word_of_nat (data div 256 ^ i)
                else bytes m ! ((addr + i) mod sz)))) \<and>
         (\<forall>k. (\<forall>i<bl. bit strb i \<longrightarrow> k \<noteq> (addr + i) mod sz) \<longrightarrow>
              bytes (snd (write_access sz bl addr data strb m)) ! k = bytes m ! k) \<and>
         (strb = 0 \<longrightarrow> bytes (snd (write_access sz bl addr data strb m)) = bytes m)"
proof -
  let ?b = "put_lanes bl strb addr (to_bytes_le bl data) sz (bytes m)"
  have w: "write_access sz bl addr data strb m = (None, \<lparr>bytes = ?b, pos = addr mod sz + bl\<rparr>)"
    using assms by (rule write_access_bytes)
  have len: "length ?b = sz" using assms(2) by (simp add: length_put_lanes)
  have lanes: "?b ! ((addr + i) mod sz) =
                 (if bit strb i then word_of_nat (data div 256 ^ i) else bytes m ! ((addr + i) mod sz))"
    if "bl \<le> sz" and "i < bl" for i
    using that(1) assms(2) that(2) by (rule put_lanes_lane)
  have frame: "?b ! k = bytes m ! k" if "\<forall>i<bl. bit strb i \<longrightarrow> k \<noteq> (addr + i) mod sz" for k
    using that by (intro put_lanes_untouched) auto
  have zero: "put_lanes bl 0 addr (to_bytes_le bl data) sz (bytes m) = bytes m"
    by (rule put_lanes_no_strobe) simp
  show ?thesis unfolding w by (simp add: len lanes frame zero)
qed

theorem C2_strobe_masking_witness:
  "(0::nat) < 8 \<and> length (bytes \<lparr>bytes = [1, 2, 3, 4, 5, 6, 7, 8], pos = 0\<rparr>) = 8 \<and>
   (0xAABBCCDD::nat) < 256 ^ 4 \<and> (4::nat) \<le> 8 \<and>
   write_access 8 4 4 0xAABBCCDD 3 \<lparr>bytes = [1, 2, 3, 4, 5, 6, 7, 8], pos = 0\<rparr> =
     (None, \<lparr>bytes = [1, 2, 3, 4, 0xDD, 0xCC, 7, 8], pos = 8\<rparr>) \<and>
   bytes (snd (write_access 8 4 4 0xAABBCCDD 0 \<lparr>bytes = [1, 2, 3, 4, 5, 6, 7, 8], pos = 0\<rparr>)) =
     [1, 2, 3, 4, 5, 6, 7, 8]"
proof -
  have h1: "(0::nat) < 8" by simp
  have h2: "length (bytes \<lparr>bytes = [1, 2, 3, 4, 5, 6, 7, 8], pos = 0\<rparr>) = 8" by simp
  have h3: "(0xAABBCCDD::nat) < 256 ^ 4" by simp
  have e: "write_access 8 4 4 0xAABBCCDD 3 \<lparr>bytes = [1, 2, 3, 4, 5, 6, 7, 8], pos = 0\<rparr> =
     (None, \<lparr>bytes = [1, 2, 3, 4, 0xDD, 0xCC, 7, 8], pos = 8\<rparr>)"
    by code_simp
  from C2_strobe_masking [OF h1 h2 h3, of 4 0]
  have "bytes (snd (write_access 8 4 4 0xAABBCCDD 0 \<lparr>bytes = [1, 2, 3, 4, 5, 6, 7, 8], pos = 0\<rparr>)) =
     [1, 2, 3, 4, 5, 6, 7, 8]" by simp
  with e show ?thesis by simp
qed

theorem C2_counterexample:
  "write_access 2 4 0 0x00AA0000 4 \<lparr>bytes = [1, 2], pos = 0\<rparr> =
     (None, \<lparr>bytes = [0xAA, 2], pos = 4\<rparr>) \<and>
   \<not> bit (4::nat) 0 \<and>
   [0xAA, 2 :: 8 word] ! ((0 + 0) mod 2) \<noteq> [1, 2] ! ((0 + 0) mod 2)"
  by code_simp

text \<open>
  Claim C3. From a constructed, idle read engine whose reset is released, and for any
  interleaving of admitted address beats, scheduler runs and data-beat handshakes (no
  reset in between): the data beats emitted so far answer the first \<open>k\<close> admitted
  addresses, in order, each with success status and the little-endian value of the
  \<open>byte_lanes\<close> store bytes at its aligned address; once the master has taken the beats,
  exactly one beat per admitted address is on the wire, in the order of the addresses.
  The third part is the single read in any state: the beat is built from the store as it
  is when the address is served.
\<close>

theorem C3_read_order:
  assumes idle: "read_idle s0" and bl: "0 < rd_byte_lanes s0" and sz: "0 < rd_size s0"
    and len: "length (bytes (rd_mem s0)) = rd_size s0"
    and nr: "no_rreset evs"
  shows "(\<exists>k. k \<le> length (ar_beats evs) \<and>
            read_responses (read_exec s0 (RReset False # evs)) =
              r_wire s0 @ map (read_beat (rd_size s0) (rd_byte_lanes s0) (bytes (rd_mem s0)))
                            (take k (read_addrs (rd_byte_lanes s0) evs))) \<and>
         (\<forall>n \<ge> length (ar_beats evs).
            r_wire (read_exec s0 (RReset False # evs @ read_drain n @ [RHandshakeR])) =
              r_wire s0 @ map (read_beat (rd_size s0) (rd_byte_lanes s0) (bytes (rd_mem s0)))
                            (read_addrs (rd_byte_lanes s0) evs) \<and>
            r_channel (read_exec s0 (RReset False # evs @ read_drain n @ [RHandshakeR])) = []) \<and>
         (\<forall>s ar rest. rd_ok s \<longrightarrow> ar_channel s = ar # rest \<longrightarrow>
            (\<exists>s'. read_step AwaitAR s = Next AwaitR s' \<and> ar_channel s' = rest \<and>
               r_channel s' = r_channel s @
                 [\<lparr>rdata = int_from_bytes
                      (map (\<lambda>i. bytes (rd_mem s) !
                          ((araddr ar div rd_byte_lanes s * rd_byte_lanes s + i) mod rd_size s))
                        [0..<rd_byte_lanes s]),
                   rresp = OKAY\<rparr>]))"
proof -
  let ?A = "read_addrs (rd_byte_lanes s0) evs"
  let ?f = "read_beat (rd_size s0) (rd_byte_lanes s0) (bytes (rd_mem s0))"
  let ?s1 = "read_handle_reset False s0"
  let ?s2 = "read_exec ?s1 evs"
  have lenA: "length ?A = length (ar_beats evs)" by (simp add: read_addrs_def)
  have "read_inv s0 [] ?s1" using idle bl sz len by (rule read_inv_start)
  from read_inv_exec [OF this nr] have inv2: "read_inv s0 ?A ?s2" by simp
  have ex2: "read_exec s0 (RReset False # evs) = ?s2" by (simp add: read_exec_Cons)
  from read_inv_count [OF inv2] have first:
    "\<exists>k. k \<le> length (ar_beats evs) \<and> read_responses ?s2 = r_wire s0 @ map ?f (take k ?A)"
    by (auto simp: lenA)
  have second: "r_wire (read_exec s0 (RReset False # evs @ read_drain n @ [RHandshakeR])) =
              r_wire s0 @ map ?f ?A \<and>
            r_channel (read_exec s0 (RReset False # evs @ read_drain n @ [RHandshakeR])) = []"
    if n: "length (ar_beats evs) \<le> n" for n
  proof -
    let ?s3 = "read_exec ?s2 (read_drain n)"
    let ?s4 = "read_event_step ?s3 RHandshakeR"
    have ex4: "read_exec s0 (RReset False # evs @ read_drain n @ [RHandshakeR]) = ?s4"
      by (simp add: read_exec_Cons read_exec_append read_exec_Nil)
    from read_inv_drain [OF inv2, of n] have inv3: "read_inv s0 ?A ?s3"
      and ge: "min (length (read_responses ?s2) + n) (length (r_wire s0) + length ?A)
           \<le> length (read_responses ?s3)" by blast+
    from read_inv_count [OF inv2] have "length (r_wire s0) \<le> length (read_responses ?s2)" by auto
    with ge n have ge3: "length (r_wire s0) + length ?A \<le> length (read_responses ?s3)"
      by (simp add: lenA min_def split: if_splits)
    from read_inv_R [OF inv3] have inv4: "read_inv s0 ?A ?s4" and e4: "r_channel ?s4 = []"
      and r4: "read_responses ?s4 = read_responses ?s3" by blast+
    from read_inv_count [OF inv4] obtain k where k: "k \<le> length ?A"
      and rk: "read_responses ?s4 = r_wire s0 @ map ?f (take k ?A)" by blast
    from rk r4 have "read_responses ?s3 = r_wire s0 @ map ?f (take k ?A)" by (simp only:)
    then have "length (read_responses ?s3) = length (r_wire s0) + min (length ?A) k"
      by (simp only: length_append length_map length_take)
    with ge3 k have kN: "k = length ?A" by simp
    have "r_wire ?s4 = read_responses ?s4" using e4 by (simp add: read_responses_def)
    with rk kN have "r_wire ?s4 = r_wire s0 @ map ?f ?A" by simp
    then show ?thesis using e4 by (simp only: ex4)
  qed
  have third: "\<exists>s'. read_step AwaitAR s = Next AwaitR s' \<and> ar_channel s' = rest \<and>
               r_channel s' = r_channel s @
                 [\<lparr>rdata = int_from_bytes
                      (map (\<lambda>i. bytes (rd_mem s) !
                          ((araddr ar div rd_byte_lanes s * rd_byte_lanes s + i) mod rd_size s))
                        [0..<rd_byte_lanes s]),
                   rresp = OKAY\<rparr>]"
    if "rd_ok s" and "ar_channel s = ar # rest" for s ar rest
    using read_step_AR_Cons [OF that(2,1)] by (simp add: read_beat_def)
  from first second third show ?thesis by (simp only: ex2) blast
qed

theorem C3_read_order_witness:
  "read_idle rd_example \<and> 0 < rd_byte_lanes rd_example \<and> 0 < rd_size rd_example \<and>
   length (bytes (rd_mem rd_example)) = rd_size rd_example \<and>
   no_rreset [RAdmitAR \<lparr>araddr = 6, arprot = None\<rparr>, RRun,
              RAdmitAR \<lparr>araddr = 1, arprot = None\<rparr>] \<and>
   r_wire (read_exec rd_example
          (RReset False # [RAdmitAR \<lparr>araddr = 6, arprot = None\<rparr>, RRun,
             RAdmitAR \<lparr>araddr = 1, arprot = None\<rparr>] @ read_drain 2 @ [RHandshakeR]))
     = [\<lparr>rdata = 0x08070605, rresp = OKAY\<rparr>, \<lparr>rdata = 0x04030201, rresp = OKAY\<rparr>]"
proof -
  let ?evs = "[RAdmitAR \<lparr>araddr = 6, arprot = None\<rparr>, RRun,
              RAdmitAR \<lparr>araddr = 1, arprot = None\<rparr>]"
  have h1: "read_idle rd_example" by (simp add: read_idle_def rd_example_def)
  have h2: "0 < rd_byte_lanes rd_example" by (simp add: rd_example_def)
  have h3: "0 < rd_size rd_example" by (simp add: rd_example_def)
  have h4: "length (bytes (rd_mem rd_example)) = rd_size rd_example" by (simp add: rd_example_def)
  have h5: "no_rreset ?evs" by (simp add: no_rreset_def)
  have n: "length (ar_beats ?evs) = 2" by (simp add: ar_beats_def)
  have a: "read_addrs (rd_byte_lanes rd_example) ?evs = [4, 0]"
    by (simp add: read_addrs_def ar_beats_def rd_example_def)
  have b: "read_beat 8 4 [1, 2, 3, 4, 5, 6, 7, 8] 4 = \<lparr>rdata = 0x08070605, rresp = OKAY\<rparr>"
    "read_beat 8 4 [1, 2, 3, 4, 5, 6, 7, 8] 0 = \<lparr>rdata = 0x04030201, rresp = OKAY\<rparr>"
    by code_simp+
  from C3_read_order [OF h1 h2 h3 h4 h5] n
  have "r_wire (read_exec rd_example (RReset False # ?evs @ read_drain 2 @ [RHandshakeR])) =
              r_wire rd_example @ map (read_beat (rd_size rd_example) (rd_byte_lanes rd_example)
                  (bytes (rd_mem rd_example))) (read_addrs (rd_byte_lanes rd_example) ?evs)"
    by simp
  then have "r_wire (read_exec rd_example (RReset False # ?evs @ read_drain 2 @ [RHandshakeR])) =
       [\<lparr>rdata = 0x08070605, rresp = OKAY\<rparr>, \<lparr>rdata = 0x04030201, rresp = OKAY\<rparr>]"
    unfolding a by (simp add: rd_example_def b)
  with h1 h2 h3 h4 h5 show ?thesis by simp
qed

text \<open>
  Claim C4. With a positive byte-lane count \<open>bl\<close>, the address computation never raises
  and yields \<open>floor(a / bl) * bl\<close>: a multiple of \<open>bl\<close>, at most \<open>a\<close> and less than
  \<open>bl\<close> below it. Both engines use it: the write engine keeps it as the address of the
  pending write, the read engine hands it to the store access.
\<close>

theorem C4_alignment:
  assumes "0 < bl"
  shows "align_addr bl a = Inr (a div bl * bl) \<and>
         bl dvd a div bl * bl \<and> a div bl * bl \<le> a \<and> a < a div bl * bl + bl \<and>
         (\<forall>s aw rest. wr_byte_lanes s = bl \<longrightarrow> aw_channel s = aw # rest \<longrightarrow>
            write_step AwaitAW s =
              Next (AwaitW (awaddr aw div bl * bl) (get_prot (awprot aw)))
                   (s\<lparr>aw_channel := rest\<rparr>)) \<and>
         (\<forall>s ar rest. rd_byte_lanes s = bl \<longrightarrow> ar_channel s = ar # rest \<longrightarrow>
            read_step AwaitAR s =
              (case read_access (rd_size s) bl (araddr ar div bl * bl) (rd_mem s) of
                 Inl e \<Rightarrow> Raised e (s\<lparr>ar_channel := rest\<rparr>)
               | Inr (r, m) \<Rightarrow>
                   Next AwaitR (s\<lparr>ar_channel := rest, rd_mem := m,
                                  r_channel := r_channel s @ [r]\<rparr>)))"
proof -
  have 1: "align_addr bl a = Inr (a div bl * bl)" using assms by (simp add: align_addr_def)
  have 2: "bl dvd a div bl * bl" by simp
  have 3: "a div bl * bl \<le> a" by simp
  have "a mod bl < bl" using assms by simp
  then have 4: "a < a div bl * bl + bl"
    using div_mult_mod_eq [of a bl] by linarith
  have 5: "write_step AwaitAW s =
              Next (AwaitW (awaddr aw div bl * bl) (get_prot (awprot aw)))
                   (s\<lparr>aw_channel := rest\<rparr>)"
    if "wr_byte_lanes s = bl" "aw_channel s = aw # rest" for s aw rest
    using that assms write_step_AW_Cons [of s aw rest] by simp
  have 6: "read_step AwaitAR s =
              (case read_access (rd_size s) bl (araddr ar div bl * bl) (rd_mem s) of
                 Inl e \<Rightarrow> Raised e (s\<lparr>ar_channel := rest\<rparr>)
               | Inr (r, m) \<Rightarrow>
                   Next AwaitR (s\<lparr>ar_channel := rest, rd_mem := m,
                                  r_channel := r_channel s @ [r]\<rparr>))"
    if "rd_byte_lanes s = bl" "ar_channel s = ar # rest" for s ar rest
    using that assms
    by (simp add: read_step_def align_addr_def Let_def split: sum.splits prod.splits)
  from 1 2 3 4 5 6 show ?thesis by blast
qed

theorem C4_alignment_witness:
  "(0::nat) < 4 \<and> align_addr 4 7 = Inr 4 \<and> (4::nat) dvd 4 \<and> (4::nat) \<le> 7 \<and> (7::nat) < 4 + 4"
proof -
  have h: "(0::nat) < 4" by simp
  from C4_alignment [OF h, of 7] have "align_addr 4 7 = Inr (7 div 4 * 4)"
    by (rule conjunct1)
  then show ?thesis by simp
qed

text \<open>
  Claim C5. The engine seeks to \<open>addr mod size\<close> and then moves through the store with
  the store's cursor. With the store the spec describes (an access at cursor \<open>p\<close> touches
  offset \<open>p mod size\<close>), byte \<open>i\<close> of a write lands at offset \<open>(addr + i) mod size\<close> and
  byte \<open>i\<close> of a read comes from that offset, also when the run passes the end of the
  store; neither raises.
\<close>

theorem C5_wraparound:
  assumes "0 < sz" and "length (bytes m) = sz" and "data < 256 ^ bl"
  shows "write_access sz bl addr data strb m =
           (None, \<lparr>bytes = put_lanes bl strb addr (to_bytes_le bl data) sz (bytes m),
                   pos = addr mod sz + bl\<rparr>) \<and>
         read_access sz bl addr m =
           Inr (\<lparr>rdata = int_from_bytes (map (\<lambda>i. bytes m ! ((addr + i) mod sz)) [0..<bl]),
                 rresp = OKAY\<rparr>,
                m\<lparr>pos := addr mod sz + bl\<rparr>)"
  using assms by (simp add: write_access_bytes read_access_bytes)

theorem C5_wraparound_witness:
  "(0::nat) < 5 \<and> length (bytes \<lparr>bytes = [10, 11, 12, 13, 14], pos = 0\<rparr>) = 5 \<and>
   (0x04030201::nat) < 256 ^ 4 \<and>
   write_access 5 4 4 0x04030201 15 \<lparr>bytes = [10, 11, 12, 13, 14], pos = 0\<rparr> =
     (None, \<lparr>bytes = [2, 3, 4, 13, 1], pos = 8\<rparr>) \<and>
   read_access 5 4 4 \<lparr>bytes = [10, 11, 12, 13, 14], pos = 0\<rparr> =
     Inr (\<lparr>rdata = 0x0C0B0A0E, rresp = OKAY\<rparr>, \<lparr>bytes = [10, 11, 12, 13, 14], pos = 8\<rparr>)"
proof -
  have h1: "(0::nat) < 5" by simp
  have h2: "length (bytes \<lparr>bytes = [10, 11, 12, 13, 14], pos = 0\<rparr>) = 5" by simp
  have h3: "(0x04030201::nat) < 256 ^ 4" by simp
  have p: "put_lanes 4 15 4 (to_bytes_le 4 0x04030201) 5 [10, 11, 12, 13, 14] = [2, 3, 4, 13, 1]"
    by code_simp
  have q: "int_from_bytes (map (\<lambda>i. [10, 11, 12, 13, 14 :: 8 word] ! ((4 + i) mod 5)) [0..<4])
             = 0x0C0B0A0E"
    by code_simp
  from C5_wraparound [OF h1 h2 h3, of 4 15] show ?thesis
    by (simp add: p q)
qed

text \<open>
  Claim C6, amended. If the store holds at least \<open>byte_lanes\<close> bytes, then writing a
  value \<open>V\<close> of data-width bits at aligned address \<open>X\<close> with all \<open>byte_lanes\<close> strobe bits
  set and reading \<open>byte_lanes\<close> bytes at \<open>X\<close> returns exactly \<open>V\<close>. As stated, for every
  store, the claim fails: in a store shorter than \<open>byte_lanes\<close> the later bytes of the
  write overwrite the earlier ones.
\<close>

theorem C6_write_read_roundtrip:
  assumes "0 < sz" and "length (bytes m) = sz" and "bl \<le> sz" and "V < 256 ^ bl"
    and "\<forall>i<bl. bit strb i"
  shows "fst (write_access sz bl X V strb m) = None \<and>
         read_access sz bl X (snd (write_access sz bl X V strb m)) =
           Inr (\<lparr>rdata = V, rresp = OKAY\<rparr>,
                (snd (write_access sz bl X V strb m))\<lparr>pos := X mod sz + bl\<rparr>)"
proof -
  let ?b = "put_lanes bl strb X (to_bytes_le bl V) sz (bytes m)"
  let ?m = "\<lparr>bytes = ?b, pos = X mod sz + bl\<rparr>"
  have w: "write_access sz bl X V strb m = (None, ?m)"
    using assms(1,2,4) by (rule write_access_bytes)
  have len: "length (bytes ?m) = sz" using assms(2) by (simp add: length_put_lanes)
  have "map (\<lambda>i. ?b ! ((X + i) mod sz)) [0..<bl] = map (\<lambda>i. to_bytes_le bl V ! i) [0..<bl]"
  proof (rule map_cong [OF refl])
    fix i assume "i \<in> set [0..<bl]"
    then have i: "i < bl" by simp
    from put_lanes_nth [OF assms(3,2) i, of strb X "to_bytes_le bl V"] assms(5) i
    show "?b ! ((X + i) mod sz) = to_bytes_le bl V ! i" by simp
  qed
  also have "\<dots> = to_bytes_le bl V"
    using map_nth [of "to_bytes_le bl V"] by (simp add: length_to_bytes_le)
  finally have "int_from_bytes (map (\<lambda>i. bytes ?m ! ((X + i) mod sz)) [0..<bl]) = V"
    using assms(4) by (simp add: from_to_bytes_le)
  with read_access_bytes [OF assms(1) len, of bl X] show ?thesis
    by (simp add: w)
qed

theorem C6_write_read_roundtrip_witness:
  "(0::nat) < 8 \<and> length (bytes \<lparr>bytes = [1, 2, 3, 4, 5, 6, 7, 8], pos = 0\<rparr>) = 8 \<and> (4::nat) \<le> 8 \<and>
   (0xAABBCCDD::nat) < 256 ^ 4 \<and> bit (2 ^ 4 - 1 :: nat) 3 \<and>
   read_access 8 4 4 (snd (write_access 8 4 4 0xAABBCCDD (2 ^ 4 - 1)
        \<lparr>bytes = [1, 2, 3, 4, 5, 6, 7, 8], pos = 0\<rparr>)) =
     Inr (\<lparr>rdata = 0xAABBCCDD, rresp = OKAY\<rparr>, \<lparr>bytes = [1, 2, 3, 4, 0xDD, 0xCC, 0xBB, 0xAA], pos = 8\<rparr>)"
proof -
  have h1: "(0::nat) < 8" by simp
  have h2: "length (bytes \<lparr>bytes = [1, 2, 3, 4, 5, 6, 7, 8], pos = 0\<rparr>) = 8" by simp
  have h3: "(4::nat) \<le> 8" by simp
  have h4: "(0xAABBCCDD::nat) < 256 ^ 4" by simp
  have h5: "\<forall>i<4. bit (2 ^ 4 - 1 :: nat) i" using full_strobe_bit [of _ 4] by blast
  have e: "snd (write_access 8 4 4 0xAABBCCDD 15 \<lparr>bytes = [1, 2, 3, 4, 5, 6, 7, 8], pos = 0\<rparr>)
             = \<lparr>bytes = [1, 2, 3, 4, 0xDD, 0xCC, 0xBB, 0xAA], pos = 8\<rparr>"
    by code_simp
  have h6: "bit (2 ^ 4 - 1 :: nat) 3" by (rule full_strobe_bit) simp
  from C6_write_read_roundtrip [OF h1 h2 h3 h4 h5, of 4] h6 show ?thesis
    by (simp add: e)
qed

theorem C6_counterexample:
  "read_access 2 4 0 (snd (write_access 2 4 0 0x04030201 15 \<lparr>bytes = [0, 0], pos = 0\<rparr>)) =
     Inr (\<lparr>rdata = 0x04030403, rresp = OKAY\<rparr>, \<lparr>bytes = [3, 4], pos = 4\<rparr>) \<and>
   (0x04030403 :: nat) \<noteq> 0x04030201"
  by code_simp

text \<open>
  Claim C7. In every state in which at most one coroutine of the engine is live and it is
  the one \<^verbatim>\<open>_process_write_cr\<close> refers to (so in every state reachable from a constructed
  engine, by the first two and the last two parts): after any further events there is
  still at most one live coroutine; a reset assertion leaves no live coroutine, no handle
  and empty queues, whether a coroutine was running or not; a reset release with a handle
  present changes nothing, and without one starts exactly one coroutine; and after a reset
  assertion, however the run continues, the master sees no more new responses than pairs
  (for reads: addresses) admitted after the assertion. The same holds for the read engine.
\<close>

theorem C7_reset:
  assumes w: "write_task_inv s" and r: "read_task_inv t"
  shows "length (wr_tasks (write_exec s evs)) \<le> 1 \<and> write_task_inv (write_exec s evs) \<and>
         write_handle_reset True s =
           s\<lparr>wr_tasks := [], process_write_cr := None,
             aw_channel := [], w_channel := [], b_channel := []\<rparr> \<and>
         (process_write_cr s \<noteq> None \<longrightarrow> write_handle_reset False s = s) \<and>
         (process_write_cr s = None \<longrightarrow>
            write_handle_reset False s =
              s\<lparr>process_write_cr := Some (wr_fresh s), wr_tasks := [(wr_fresh s, AwaitAW)],
                wr_fresh := Suc (wr_fresh s)\<rparr>) \<and>
         length (b_wire (write_exec (write_handle_reset True s) evs))
           \<le> length (b_wire s) + min (length (aw_beats evs)) (length (w_beats evs)) \<and>
         length (rd_tasks (read_exec t revs)) \<le> 1 \<and> read_task_inv (read_exec t revs) \<and>
         read_handle_reset True t =
           t\<lparr>rd_tasks := [], process_read_cr := None, ar_channel := [], r_channel := []\<rparr> \<and>
         (process_read_cr t \<noteq> None \<longrightarrow> read_handle_reset False t = t) \<and>
         (process_read_cr t = None \<longrightarrow>
            read_handle_reset False t =
              t\<lparr>process_read_cr := Some (rd_fresh t), rd_tasks := [(rd_fresh t, AwaitAR)],
                rd_fresh := Suc (rd_fresh t)\<rparr>) \<and>
         length (r_wire (read_exec (read_handle_reset True t) revs))
           \<le> length (r_wire t) + length (ar_beats revs) \<and>
         (AxiLiteRamWrite_init al wl sl sz mem = Inr s0 \<longrightarrow>
            length (wr_tasks (write_exec s0 evs)) \<le> 1) \<and>
         (AxiLiteRamRead_init al' rl sz' mem' = Inr t0 \<longrightarrow>
            length (rd_tasks (read_exec t0 revs)) \<le> 1)"
proof -
  have w6: "length (wr_tasks (write_exec s0 evs)) \<le> 1"
    if "AxiLiteRamWrite_init al wl sl sz mem = Inr s0"
  proof -
    from write_init_task_inv [OF that] have "write_task_inv s0" by simp
    then have "write_task_inv (write_exec s0 evs)" by (rule write_task_inv_exec)
    then show ?thesis by (simp add: write_task_inv_def)
  qed
  have r6: "length (rd_tasks (read_exec t0 revs)) \<le> 1"
    if "AxiLiteRamRead_init al' rl sz' mem' = Inr t0"
  proof -
    from read_init_task_inv [OF that] have "read_task_inv t0" by simp
    then have "read_task_inv (read_exec t0 revs)" by (rule read_task_inv_exec)
    then show ?thesis by (simp add: read_task_inv_def)
  qed
  from w have w1: "write_task_inv (write_exec s evs)" by (rule write_task_inv_exec)
  then have w0: "length (wr_tasks (write_exec s evs)) \<le> 1" by (simp add: write_task_inv_def)
  from r have r1: "read_task_inv (read_exec t revs)" by (rule read_task_inv_exec)
  then have r0: "length (rd_tasks (read_exec t revs)) \<le> 1" by (simp add: read_task_inv_def)
  note w2 = write_reset_assert [OF w]
  note w3 = write_reset_deassert_running [of s]
  note w4 = write_reset_deassert_idle [OF _ w]
  note w5 = write_post_reset_bound [OF w, of evs]
  note r2 = read_reset_assert [OF r]
  note r3 = read_reset_deassert_running [of t]
  note r4 = read_reset_deassert_idle [OF _ r]
  note r5 = read_post_reset_bound [OF r, of revs]
  show ?thesis
    using w0 w1 w2 w3 w4 w5 r0 r1 r2 r3 r4 r5 w6 r6 by (intro conjI impI) assumption+
qed

theorem C7_reset_witness:
  "write_task_inv wr_example \<and> read_task_inv rd_example \<and>
   process_write_cr wr_example = None \<and> process_read_cr rd_example = None \<and>
   write_handle_reset True wr_example = wr_example \<and>
   write_handle_reset False wr_example =
     wr_example\<lparr>process_write_cr := Some 0, wr_tasks := [(0, AwaitAW)], wr_fresh := Suc 0\<rparr> \<and>
   read_handle_reset False rd_example =
     rd_example\<lparr>process_read_cr := Some 0, rd_tasks := [(0, AwaitAR)], rd_fresh := Suc 0\<rparr> \<and>
   length (wr_tasks (write_exec wr_example [WReset False, WReset False, WRun, WReset True,
      WReset False])) \<le> 1"
proof -
  have w: "write_task_inv wr_example" by (simp add: write_task_inv_def wr_example_def)
  have r: "read_task_inv rd_example" by (simp add: read_task_inv_def rd_example_def)
  have wn: "process_write_cr wr_example = None" by (simp add: wr_example_def)
  have rn: "process_read_cr rd_example = None" by (simp add: rd_example_def)
  note th = C7_reset [OF w r, of "[WReset False, WReset False, WRun, WReset True, WReset False]" "[]"]
  note 1 = th [THEN conjunct1]
  from th [THEN conjunct2, THEN conjunct2, THEN conjunct1] have 2: "write_handle_reset True wr_example = wr_example" by (simp add: wr_example_def)
  from th [THEN conjunct2, THEN conjunct2, THEN conjunct2, THEN conjunct2, THEN conjunct1] wn have 3: "write_handle_reset False wr_example =
     wr_example\<lparr>process_write_cr := Some 0, wr_tasks := [(0, AwaitAW)], wr_fresh := Suc 0\<rparr>"
    by (simp add: wr_example_def)
  from th [THEN conjunct2, THEN conjunct2, THEN conjunct2, THEN conjunct2, THEN conjunct2, THEN conjunct2, THEN conjunct2, THEN conjunct2, THEN conjunct2, THEN conjunct2, THEN conjunct1] rn have 4: "read_handle_reset False rd_example =
     rd_example\<lparr>process_read_cr := Some 0, rd_tasks := [(0, AwaitAR)], rd_fresh := Suc 0\<rparr>"
    by (simp add: rd_example_def)
  from w r wn rn 2 3 4 1 show ?thesis by (intro conjI)
qed

text \<open>
  Claim C8. A beat without a protection attribute is given \<^verbatim>\<open>AxiProt.NONSECURE\<close>; a data
  beat without a strobe attribute is given \<^verbatim>\<open>self.strb_mask\<close>, which is
  \<open>2 ^ byte_lanes - 1\<close> in every state reachable from a constructed engine and has all
  \<open>byte_lanes\<close> low bits set; the write is then the write with that full strobe.
\<close>

theorem C8_defaults:
  "get_prot None = AxiProt_NONSECURE \<and>
   get_strb dflt \<lparr>wdata = d, wstrb = None\<rparr> = dflt \<and>
   (\<forall>i<bl. bit (2 ^ bl - 1 :: nat) i) \<and>
   (AxiLiteRamWrite_init al wl sl sz mem = Inr s0 \<longrightarrow>
      strb_mask (write_exec s0 evs) = 2 ^ wr_byte_lanes (write_exec s0 evs) - 1) \<and>
   (\<forall>s aw rest. 0 < wr_byte_lanes s \<longrightarrow> aw_channel s = aw # rest \<longrightarrow> awprot aw = None \<longrightarrow>
      write_step AwaitAW s =
        Next (AwaitW (awaddr aw div wr_byte_lanes s * wr_byte_lanes s) AxiProt_NONSECURE)
             (s\<lparr>aw_channel := rest\<rparr>)) \<and>
   (\<forall>s w rest addr prot.
      strb_mask s = 2 ^ wr_byte_lanes s - 1 \<longrightarrow> 0 < wr_size s \<longrightarrow>
      w_channel s = w # rest \<longrightarrow> wstrb w = None \<longrightarrow> wdata w < 256 ^ wr_byte_lanes s \<longrightarrow>
      write_step (AwaitW addr prot) s =
        Next AwaitB
          (s\<lparr>w_channel := rest,
             wr_mem := snd (write_access (wr_size s) (wr_byte_lanes s) addr (wdata w)
                              (2 ^ wr_byte_lanes s - 1) (wr_mem s)),
             b_channel := b_channel s @ [\<lparr>bresp = OKAY\<rparr>]\<rparr>))"
proof -
  have 1: "get_prot None = AxiProt_NONSECURE" by (simp add: get_prot_def)
  have 2: "get_strb dflt \<lparr>wdata = d, wstrb = None\<rparr> = dflt" by (simp add: get_strb_def)
  have 3: "\<forall>i<bl. bit (2 ^ bl - 1 :: nat) i" using full_strobe_bit by blast
  have 4: "strb_mask (write_exec s0 evs) = 2 ^ wr_byte_lanes (write_exec s0 evs) - 1"
    if "AxiLiteRamWrite_init al wl sl sz mem = Inr s0"
    using write_init_mask [OF that] write_exec_cfg [of s0 evs] by simp
  have 5: "write_step AwaitAW s =
        Next (AwaitW (awaddr aw div wr_byte_lanes s * wr_byte_lanes s) AxiProt_NONSECURE)
             (s\<lparr>aw_channel := rest\<rparr>)"
    if "0 < wr_byte_lanes s" "aw_channel s = aw # rest" "awprot aw = None" for s aw rest
    using write_step_AW_Cons [OF that(2,1)] that(3) by (simp add: get_prot_def)
  have 6: "write_step (AwaitW addr prot) s =
        Next AwaitB
          (s\<lparr>w_channel := rest,
             wr_mem := snd (write_access (wr_size s) (wr_byte_lanes s) addr (wdata w)
                              (2 ^ wr_byte_lanes s - 1) (wr_mem s)),
             b_channel := b_channel s @ [\<lparr>bresp = OKAY\<rparr>]\<rparr>)"
    if "strb_mask s = 2 ^ wr_byte_lanes s - 1" "0 < wr_size s" "w_channel s = w # rest"
      "wstrb w = None" "wdata w < 256 ^ wr_byte_lanes s" for s w rest addr prot
    using write_step_W_Cons [OF that(3,2,5), of addr prot] that(1,4)
    by (simp add: apply_write_def get_strb_def OKAY_beat_def)
  from 1 2 3 4 5 6 show ?thesis by blast
qed

theorem C8_defaults_witness:
  "AxiLiteRamWrite_init 32 32 (Some 4) 8 None = Inr wr_example \<and>
   strb_mask (write_exec wr_example [WReset False, WRun]) = 15 \<and>
   write_step (AwaitW 4 AxiProt_NONSECURE)
     (wr_example\<lparr>w_channel := [\<lparr>wdata = 0xAABBCCDD, wstrb = None\<rparr>]\<rparr>) =
     Next AwaitB
       (wr_example\<lparr>w_channel := [],
          wr_mem := \<lparr>bytes = [0, 0, 0, 0, 0xDD, 0xCC, 0xBB, 0xAA], pos = 8\<rparr>,
          b_channel := [\<lparr>bresp = OKAY\<rparr>]\<rparr>)"
proof -
  note th = C8_defaults [of 0 0 0 32 32 "Some 4" 8 None wr_example "[WReset False, WRun]"]
  have i: "AxiLiteRamWrite_init 32 32 (Some 4) 8 None = Inr wr_example"
    by (rule wr_example_init)
  from th have "AxiLiteRamWrite_init 32 32 (Some 4) 8 None = Inr wr_example \<longrightarrow>
      strb_mask (write_exec wr_example [WReset False, WRun]) =
        2 ^ wr_byte_lanes (write_exec wr_example [WReset False, WRun]) - 1"
    by (elim conjE)
  with i have "strb_mask (write_exec wr_example [WReset False, WRun]) =
        2 ^ wr_byte_lanes (write_exec wr_example [WReset False, WRun]) - 1"
    by (rule rev_mp)
  moreover have "wr_byte_lanes (write_exec wr_example [WReset False, WRun]) = 4"
    using write_exec_cfg [of wr_example "[WReset False, WRun]"] by (simp add: wr_example_def)
  ultimately have a: "strb_mask (write_exec wr_example [WReset False, WRun]) = 15" by simp
  let ?s = "wr_example\<lparr>w_channel := [\<lparr>wdata = 0xAABBCCDD, wstrb = None\<rparr>]\<rparr>"
  from th have "\<forall>s w rest addr prot.
      strb_mask s = 2 ^ wr_byte_lanes s - 1 \<longrightarrow> 0 < wr_size s \<longrightarrow>
      w_channel s = w # rest \<longrightarrow> wstrb w = None \<longrightarrow> wdata w < 256 ^ wr_byte_lanes s \<longrightarrow>
      write_step (AwaitW addr prot) s =
        Next AwaitB
          (s\<lparr>w_channel := rest,
             wr_mem := snd (write_access (wr_size s) (wr_byte_lanes s) addr (wdata w)
                              (2 ^ wr_byte_lanes s - 1) (wr_mem s)),
             b_channel := b_channel s @ [\<lparr>bresp = OKAY\<rparr>]\<rparr>)"
    by (elim conjE)
  then have "strb_mask ?s = 2 ^ wr_byte_lanes ?s - 1 \<longrightarrow> 0 < wr_size ?s \<longrightarrow>
      w_channel ?s = \<lparr>wdata = 0xAABBCCDD, wstrb = None\<rparr> # [] \<longrightarrow>
      wstrb \<lparr>wdata = 0xAABBCCDD, wstrb = None\<rparr> = None \<longrightarrow>
      wdata \<lparr>wdata = 0xAABBCCDD, wstrb = None\<rparr> < 256 ^ wr_byte_lanes ?s \<longrightarrow>
      write_step (AwaitW 4 AxiProt_NONSECURE) ?s =
        Next AwaitB
          (?s\<lparr>w_channel := [],
             wr_mem := snd (write_access (wr_size ?s) (wr_byte_lanes ?s) 4
                              (wdata \<lparr>wdata = 0xAABBCCDD, wstrb = None\<rparr>)
                              (2 ^ wr_byte_lanes ?s - 1) (wr_mem ?s)),
             b_channel := b_channel ?s @ [\<lparr>bresp = OKAY\<rparr>]\<rparr>)"
    by blast
  moreover have e: "snd (write_access 8 4 4 0xAABBCCDD 15 \<lparr>bytes = replicate 8 0, pos = 0\<rparr>) =
      \<lparr>bytes = [0, 0, 0, 0, 0xDD, 0xCC, 0xBB, 0xAA], pos = 8\<rparr>"
    by code_simp
  ultimately have b: "write_step (AwaitW 4 AxiProt_NONSECURE) ?s =
     Next AwaitB
       (wr_example\<lparr>w_channel := [],
          wr_mem := \<lparr>bytes = [0, 0, 0, 0, 0xDD, 0xCC, 0xBB, 0xAA], pos = 8\<rparr>,
          b_channel := [\<lparr>bresp = OKAY\<rparr>]\<rparr>)"
    by (simp add: wr_example_def)
  from i a b show ?thesis by (intro conjI)
qed

text \<open>
  Claim C9. With a strobe wire of width \<open>sl\<close> present, the write engine's constructor
  fails exactly when the data width is not a multiple of 8 or \<open>sl\<close> differs from
  \<open>width div 8\<close>, and then with AssertionError; the read engine's constructor fails
  exactly when its data width is not a multiple of 8; the composite fails exactly when one
  of its two engines does.
\<close>

theorem C9_construction_checks:
  "isl (AxiLiteRamWrite_init al wl (Some sl) sz mem) = (\<not> 8 dvd wl \<or> sl \<noteq> wl div 8) \<and>
   (isl (AxiLiteRamWrite_init al wl (Some sl) sz mem) \<longrightarrow>
      AxiLiteRamWrite_init al wl (Some sl) sz mem = Inl AssertionError) \<and>
   isl (AxiLiteRamRead_init al' rl sz mem) = (\<not> 8 dvd rl) \<and>
   (isl (AxiLiteRamRead_init al' rl sz mem) \<longrightarrow>
      AxiLiteRamRead_init al' rl sz mem = Inl AssertionError) \<and>
   isl (AxiLiteRam_init al wl (Some sl) al' rl sz mem) =
     (\<not> 8 dvd wl \<or> sl \<noteq> wl div 8 \<or> \<not> 8 dvd rl) \<and>
   (isl (AxiLiteRam_init al wl (Some sl) al' rl sz mem) \<longrightarrow>
      AxiLiteRam_init al wl (Some sl) al' rl sz mem = Inl AssertionError)"
proof -
  have w: "isl (AxiLiteRamWrite_init al wl (Some sl) sz mem) = (\<not> 8 dvd wl \<or> sl \<noteq> wl div 8) \<and>
   (isl (AxiLiteRamWrite_init al wl (Some sl) sz mem) \<longrightarrow>
      AxiLiteRamWrite_init al wl (Some sl) sz mem = Inl AssertionError)"
  proof (cases "\<not> 8 dvd wl \<or> sl \<noteq> wl div 8")
    case True
    from write_init_bad [OF True, of al sz mem] True show ?thesis by simp
  next
    case False
    then have "8 dvd wl" and sl: "sl = wl div 8" by simp_all
    from write_init_good [OF this(1), of al sz mem] sl False show ?thesis by auto
  qed
  have r: "isl (AxiLiteRamRead_init al' rl sz mem) = (\<not> 8 dvd rl) \<and>
   (isl (AxiLiteRamRead_init al' rl sz mem) \<longrightarrow>
      AxiLiteRamRead_init al' rl sz mem = Inl AssertionError)"
  proof (cases "8 dvd rl")
    case True
    from read_init_good [OF True, of al' sz mem] True show ?thesis by auto
  next
    case False
    from read_init_bad [OF False, of al' sz mem] False show ?thesis by simp
  qed
  have c: "isl (AxiLiteRam_init al wl (Some sl) al' rl sz mem) =
     (\<not> 8 dvd wl \<or> sl \<noteq> wl div 8 \<or> \<not> 8 dvd rl) \<and>
   (isl (AxiLiteRam_init al wl (Some sl) al' rl sz mem) \<longrightarrow>
      AxiLiteRam_init al wl (Some sl) al' rl sz mem = Inl AssertionError)"
  proof (cases "\<not> 8 dvd wl \<or> sl \<noteq> wl div 8 \<or> \<not> 8 dvd rl")
    case True
    from ram_init_bad [OF True, of al al' sz mem] True show ?thesis by simp
  next
    case False
    then have "8 dvd wl" and sl: "sl = wl div 8" and "8 dvd rl" by simp_all
    from ram_init_good [OF this(1,3), of al al' sz mem] sl False show ?thesis by auto
  qed
  from w r c show ?thesis by (elim conjE, intro conjI) assumption+
qed

theorem C9_construction_checks_witness:
  "AxiLiteRamWrite_init 32 12 (Some 1) 16 None = Inl AssertionError \<and>
   AxiLiteRamWrite_init 32 32 (Some 3) 16 None = Inl AssertionError \<and>
   \<not> isl (AxiLiteRam_init 32 32 (Some 4) 32 32 16 None)"
proof -
  note a = C9_construction_checks [of 32 12 1 16 None 32 12]
  note b = C9_construction_checks [of 32 32 3 16 None 32 32]
  note c = C9_construction_checks [of 32 32 4 16 None 32 32]
  have "\<not> 8 dvd (12::nat) \<or> (1::nat) \<noteq> 12 div 8" by simp
  with a [THEN conjunct1] have "isl (AxiLiteRamWrite_init 32 12 (Some 1) 16 None)"
    by (simp only:)
  with a [THEN conjunct2, THEN conjunct1]
  have 1: "AxiLiteRamWrite_init 32 12 (Some 1) 16 None = Inl AssertionError"
    by (rule mp)
  have "\<not> 8 dvd (32::nat) \<or> (3::nat) \<noteq> 32 div 8" by simp
  with b [THEN conjunct1] have "isl (AxiLiteRamWrite_init 32 32 (Some 3) 16 None)"
    by (simp only:)
  with b [THEN conjunct2, THEN conjunct1]
  have 2: "AxiLiteRamWrite_init 32 32 (Some 3) 16 None = Inl AssertionError"
    by (rule mp)
  have "\<not> (\<not> 8 dvd (32::nat) \<or> (4::nat) \<noteq> 32 div 8 \<or> \<not> 8 dvd (32::nat))" by simp
  with c [THEN conjunct2, THEN conjunct2, THEN conjunct2, THEN conjunct2, THEN conjunct1]
  have 3: "\<not> isl (AxiLiteRam_init 32 32 (Some 4) 32 32 16 None)"
    by (simp only: simp_thms)
  from 1 2 3 show ?thesis by (intro conjI)
qed

text \<open>
  Claim C10. No event of the read interface changes the bytes of the store: not a run of
  the read coroutine, not a single store access of a read, not a reset. Only the store's
  cursor moves.
\<close>

theorem C10_read_leaves_store:
  "bytes (rd_mem (read_exec s evs)) = bytes (rd_mem s) \<and>
   bytes (rd_mem (snd (read_run pc s))) = bytes (rd_mem s) \<and>
   (case read_access sz bl addr m of Inl e \<Rightarrow> True | Inr (r, m') \<Rightarrow> bytes m' = bytes m)"
proof -
  have "bytes (rd_mem (read_exec s evs)) = bytes (rd_mem s)"
  proof (induction evs arbitrary: s)
    case Nil
    show ?case by (simp add: read_exec_Nil)
  next
    case (Cons e es)
    have "bytes (rd_mem (read_exec (read_event_step s e) es)) = bytes (rd_mem (read_event_step s e))"
      by (rule Cons.IH)
    then show ?case by (simp add: read_exec_Cons read_event_step_bytes)
  qed
  moreover have "bytes (rd_mem (snd (read_run pc s))) = bytes (rd_mem s)"
    using read_run_mono [of s pc] by (simp add: rd_mono_def rd_frame_def)
  moreover have "case read_access sz bl addr m of Inl e \<Rightarrow> True | Inr (r, m') \<Rightarrow> bytes m' = bytes m"
    by (simp add: read_access_def mem_read_def mem_seek_def)
  ultimately show ?thesis by (intro conjI)
qed

theorem C10_read_leaves_store_witness:
  "bytes (rd_mem (read_exec rd_example
      [RReset False, RAdmitAR \<lparr>araddr = 6, arprot = None\<rparr>, RRun, RHandshakeR]))
     = [1, 2, 3, 4, 5, 6, 7, 8]"
  using C10_read_leaves_store [where s = rd_example and evs =
      "[RReset False, RAdmitAR \<lparr>araddr = 6, arprot = None\<rparr>, RRun, RHandshakeR]"]
  by (simp add: rd_example_def)

end
